theory Spec2Isabelle
  imports Main "HOL-Library.Multiset" "HOL-Library.Char_ord" "HOL-Library.List_Lexorder"
    "HOL-Library.Product_Lexorder"
begin

section \<open>Text as the script sees it\<close>

text \<open>
  The script \<^verbatim>\<open>hack/check-image-tags.py\<close> works on Python \<^verbatim>\<open>str\<close> values. A \<^typ>\<open>string\<close>
  here is a list of characters with code points below 256, and every character class
  below is Python's class cut down to that range (on it, \<^verbatim>\<open>str.lower\<close> maps one character
  to one character).
\<close>

definition ord :: "char \<Rightarrow> nat" where
  "ord c = of_char c"

text \<open>\<^verbatim>\<open>str.isspace\<close>, which is also what \<^verbatim>\<open>str.strip()\<close> removes and what \<^verbatim>\<open>\s\<close> matches.\<close>

definition is_space :: "char \<Rightarrow> bool" where
  "is_space c = (ord c \<in> {9, 10, 11, 12, 13, 28, 29, 30, 31, 32, 133, 160})"

text \<open>\<^verbatim>\<open>\d\<close>: the decimal digits.\<close>

definition is_digit :: "char \<Rightarrow> bool" where
  "is_digit c = (48 \<le> ord c \<and> ord c \<le> 57)"

text \<open>\<^verbatim>\<open>\w\<close>: alphanumeric characters and the underscore.\<close>

definition is_word :: "char \<Rightarrow> bool" where
  "is_word c = (let n = ord c in
     (48 \<le> n \<and> n \<le> 57) \<or> (65 \<le> n \<and> n \<le> 90) \<or> n = 95 \<or> (97 \<le> n \<and> n \<le> 122) \<or>
     n = 170 \<or> n = 178 \<or> n = 179 \<or> n = 181 \<or> n = 185 \<or> n = 186 \<or>
     (188 \<le> n \<and> n \<le> 190) \<or> (192 \<le> n \<and> n \<le> 214) \<or> (216 \<le> n \<and> n \<le> 246) \<or>
     (248 \<le> n \<and> n \<le> 255))"

text \<open>The separators \<^verbatim>\<open>[.\-_]\<close> of a version.\<close>

definition is_sep :: "char \<Rightarrow> bool" where
  "is_sep c = (c = CHR ''.'' \<or> c = CHR ''-'' \<or> c = CHR ''_'')"

text \<open>The quotes \<^verbatim>\<open>["\']\<close>.\<close>

definition is_quote :: "char \<Rightarrow> bool" where
  "is_quote c = (ord c = 34 \<or> ord c = 39)"

text \<open>The class \<^verbatim>\<open>[^"\'#\s]\<close> of the characters of a value.\<close>

definition is_value_char :: "char \<Rightarrow> bool" where
  "is_value_char c = (\<not> is_quote c \<and> c \<noteq> CHR ''#'' \<and> \<not> is_space c)"

definition newline :: char where
  "newline = CHR 0x0A"

text \<open>The dot of a pattern: any character but the newline.\<close>

definition is_dot :: "char \<Rightarrow> bool" where
  "is_dot c = (c \<noteq> newline)"

definition lower_char :: "char \<Rightarrow> char" where
  "lower_char c = (let n = ord c in
     if (65 \<le> n \<and> n \<le> 90) \<or> (192 \<le> n \<and> n \<le> 214) \<or> (216 \<le> n \<and> n \<le> 222)
     then char_of (n + 32) else c)"

definition lower :: "string \<Rightarrow> string" where
  "lower s = map lower_char s"

definition startswith :: "string \<Rightarrow> string \<Rightarrow> bool" where
  "startswith s p = (take (length p) s = p)"

text \<open>\<^verbatim>\<open>s.strip()\<close>: whitespace removed at both ends.\<close>

definition strip :: "string \<Rightarrow> string" where
  "strip s = rev (dropWhile is_space (rev (dropWhile is_space s)))"

text \<open>
  \<^verbatim>\<open>s.split("\n")\<close> and \<^verbatim>\<open>re.split(r"[.\-_]", s)\<close>: the pieces between the separating
  characters, empty pieces kept, so that a text with n separators has n + 1 pieces.
\<close>

fun split_on :: "(char \<Rightarrow> bool) \<Rightarrow> string \<Rightarrow> string list" where
  "split_on p [] = [[]]"
| "split_on p (c # cs) =
     (if p c then [] # split_on p cs
      else (case split_on p cs of [] \<Rightarrow> [[c]] | w # ws \<Rightarrow> (c # w) # ws))"

text \<open>Comparison of two \<^verbatim>\<open>str\<close> values: by code point, a proper prefix first.\<close>

fun str_lt :: "string \<Rightarrow> string \<Rightarrow> bool" where
  "str_lt [] [] = False"
| "str_lt [] (y # ys) = True"
| "str_lt (x # xs) [] = False"
| "str_lt (x # xs) (y # ys) = (if x = y then str_lt xs ys else ord x < ord y)"

section \<open>Regular expressions\<close>

text \<open>
  The two patterns of the script use literals, character classes, sequencing, the greedy
  \<^verbatim>\<open>?\<close>, \<^verbatim>\<open>*\<close> and \<^verbatim>\<open>+\<close>, capturing groups and \<^verbatim>\<open>$\<close>. \<^verbatim>\<open>re.match\<close> is a backtracking
  matcher anchored at the start of the text: it returns the first way of matching in the
  order in which a greedy matcher tries them. The function \<open>ms\<close> lists the ways of matching
  in that order, each as the text that is left and the groups captured so far.
\<close>

datatype rx =
    Lit string
  | Cls "char \<Rightarrow> bool"
  | Seq rx rx
  | Opt rx
  | Star rx
  | Plus rx
  | Grp nat rx
  | Eos

type_synonym groups = "nat \<rightharpoonup> string"
type_synonym mstate = "string \<times> groups"

text \<open>
  Repetition, longest first. An iteration that consumes nothing is not repeated; the
  bound, the length of the text, is therefore never what stops the iteration.
\<close>

primrec star_iter :: "nat \<Rightarrow> (mstate \<Rightarrow> mstate list) \<Rightarrow> mstate \<Rightarrow> mstate list" where
  "star_iter 0 f x = [x]"
| "star_iter (Suc n) f x =
     concat (map (star_iter n f) (filter (\<lambda>y. length (fst y) < length (fst x)) (f x))) @ [x]"

primrec ms :: "rx \<Rightarrow> mstate \<Rightarrow> mstate list" where
  "ms (Lit l) x = (if startswith (fst x) l then [(drop (length l) (fst x), snd x)] else [])"
| "ms (Cls p) x = (case fst x of [] \<Rightarrow> [] | c # s \<Rightarrow> if p c then [(s, snd x)] else [])"
| "ms (Seq a b) x = concat (map (ms b) (ms a x))"
| "ms (Opt a) x = ms a x @ [x]"
| "ms (Star a) x = star_iter (length (fst x)) (ms a) x"
| "ms (Plus a) x = concat (map (\<lambda>y. star_iter (length (fst y)) (ms a) y) (ms a x))"
| "ms (Grp n a) x =
     map (\<lambda>y. (fst y, (snd y)(n \<mapsto> take (length (fst x) - length (fst y)) (fst x)))) (ms a x)"
| "ms Eos x = (if fst x = [] \<or> fst x = [newline] then [x] else [])"

text \<open>\<^verbatim>\<open>pattern.match(s)\<close>: the groups of the first way of matching, if there is one.\<close>

definition re_match :: "rx \<Rightarrow> string \<Rightarrow> groups option" where
  "re_match r s = (case ms r (s, Map.empty) of [] \<Rightarrow> None | y # _ \<Rightarrow> Some (snd y))"

text \<open>
  \<^verbatim>\<open>match.group(n)\<close>. No group of the two patterns stands in an optional part, so every
  match sets all of them (\<open>version_rx_group\<close>, \<open>match_line_groups\<close>).
\<close>

definition group :: "groups \<Rightarrow> nat \<Rightarrow> string" where
  "group g n = (case g n of None \<Rightarrow> [] | Some s \<Rightarrow> s)"

section \<open>Version keys\<close>

text \<open>
  \<^verbatim>\<open>parse_version\<close> returns a tuple: the integers of the version, or
  \<^verbatim>\<open>(float("inf"), tag)\<close>. A key is therefore a list of values of three kinds.
\<close>

datatype py_val = PInt int | PInf | PStr string

datatype exn = ValueError | TypeError | TimeoutExpired | OtherException

text \<open>\<^verbatim>\<open>==\<close> on these values never raises; an integer is never equal to infinity.\<close>

fun py_eq :: "py_val \<Rightarrow> py_val \<Rightarrow> bool" where
  "py_eq (PInt a) (PInt b) = (a = b)"
| "py_eq PInf PInf = True"
| "py_eq (PStr s) (PStr t) = (s = t)"
| "py_eq _ _ = False"

text \<open>\<^verbatim>\<open><\<close> on these values; a text against a number raises \<^verbatim>\<open>TypeError\<close>.\<close>

fun py_lt :: "py_val \<Rightarrow> py_val \<Rightarrow> exn + bool" where
  "py_lt (PInt a) (PInt b) = Inr (a < b)"
| "py_lt (PInt a) PInf = Inr True"
| "py_lt PInf (PInt b) = Inr False"
| "py_lt PInf PInf = Inr False"
| "py_lt (PStr s) (PStr t) = Inr (str_lt s t)"
| "py_lt _ _ = Inl TypeError"

text \<open>
  \<^verbatim>\<open><\<close> on tuples: the first position where the two differ (by \<^verbatim>\<open>==\<close>) decides; when
  there is none, the shorter tuple is the lesser.
\<close>

fun tuple_lt :: "py_val list \<Rightarrow> py_val list \<Rightarrow> exn + bool" where
  "tuple_lt [] [] = Inr False"
| "tuple_lt [] (y # ys) = Inr True"
| "tuple_lt (x # xs) [] = Inr False"
| "tuple_lt (x # xs) (y # ys) = (if py_eq x y then tuple_lt xs ys else py_lt x y)"

text \<open>
  \<^verbatim>\<open>int(p)\<close> on a run of decimal digits, the only texts \<^verbatim>\<open>parse_version\<close> passes to it
  (\<open>version_parts_digits\<close>).
  \<open>lim\<close> is the interpreter's limit on the digits of such a conversion
  (\<^verbatim>\<open>sys.get_int_max_str_digits()\<close>, 4300 unless configured; 0, or an interpreter older
  than the limit, means none). The interpreter checks it on texts of more than 640 digits
  (\<^verbatim>\<open>sys.int_info.str_digits_check_threshold\<close>, below which no limit can be set): such a
  text, when longer than the limit, raises \<^verbatim>\<open>ValueError\<close>, as does a text that is no
  number.
\<close>

definition digit_val :: "char \<Rightarrow> int" where
  "digit_val c = int (ord c) - 48"

definition py_int :: "nat \<Rightarrow> string \<Rightarrow> exn + int" where
  "py_int lim p =
     (if p = [] \<or> \<not> list_all is_digit p then Inl ValueError
      else if 640 < length p \<and> 0 < lim \<and> lim < length p then Inl ValueError
      else Inr (foldl (\<lambda>a c. 10 * a + digit_val c) 0 p))"

text \<open>\<^verbatim>\<open>tuple(int(p) for p in parts)\<close>: the first conversion that raises ends it.\<close>

fun py_ints :: "nat \<Rightarrow> string list \<Rightarrow> exn + int list" where
  "py_ints lim [] = Inr []"
| "py_ints lim (p # ps) =
     (case py_int lim p of
        Inl e \<Rightarrow> Inl e
      | Inr n \<Rightarrow> (case py_ints lim ps of Inl e \<Rightarrow> Inl e | Inr ns \<Rightarrow> Inr (n # ns)))"

text \<open>
  The loop over the prefixes \<^verbatim>\<open>("v", "version-v", "version-")\<close>, which stops at the first
  one that the lower-cased text starts with.
\<close>

fun strip_first_prefix :: "string list \<Rightarrow> string \<Rightarrow> string" where
  "strip_first_prefix [] cleaned = cleaned"
| "strip_first_prefix (prefix # rest) cleaned =
     (if startswith (lower cleaned) prefix then drop (length prefix) cleaned
      else strip_first_prefix rest cleaned)"

definition prefixes :: "string list" where
  "prefixes = [''v'', ''version-v'', ''version-'']"

definition remove_prefix :: "string \<Rightarrow> string" where
  "remove_prefix tag = strip_first_prefix prefixes tag"

text \<open>The pattern \<^verbatim>\<open>^(\d+(?:[.\-_]\d+)*)\<close>.\<close>

definition version_rx :: rx where
  "version_rx =
     Grp 1 (Seq (Plus (Cls is_digit)) (Star (Seq (Cls is_sep) (Plus (Cls is_digit)))))"

text \<open>
  The fallback key, and \<^verbatim>\<open>parse_version\<close>. The handler \<^verbatim>\<open>except ValueError\<close> catches what
  the conversions raise: \<open>py_int\<close> raises nothing else.
\<close>

definition fallback :: "string \<Rightarrow> py_val list" where
  "fallback tag = [PInf, PStr tag]"

definition parse_version :: "nat \<Rightarrow> string \<Rightarrow> py_val list" where
  "parse_version lim tag =
     (let cleaned = remove_prefix tag in
      case re_match version_rx cleaned of
        None \<Rightarrow> fallback tag
      | Some version_match \<Rightarrow>
          (let version_str = group version_match 1;
               parts = split_on is_sep version_str
           in case py_ints lim parts of
                Inr ns \<Rightarrow> map PInt ns
              | Inl e \<Rightarrow> fallback tag))"

section \<open>The latest tag\<close>

text \<open>
  \<^verbatim>\<open>sorted(tags, key=parse_version, reverse=True)\<close>. The sort is stable and compares keys
  with \<^verbatim>\<open><\<close> only; with \<^verbatim>\<open>reverse=True\<close> the list is reversed, sorted in ascending order
  and reversed again, which keeps elements with equal keys in their original order. The
  ascending sort is written as an insertion sort (the interpreter's merge sort computes
  the same list whenever \<^verbatim>\<open><\<close> is a strict linear order and raises nothing, which
  \<open>key_lt_rank\<close> and \<open>rank_inj\<close> show for the keys of \<open>parse_version\<close>). A comparison that
  raises ends the sort.
\<close>

fun insert_by :: "('k \<Rightarrow> 'k \<Rightarrow> exn + bool) \<Rightarrow> ('a \<Rightarrow> 'k) \<Rightarrow> 'a \<Rightarrow> 'a list \<Rightarrow> exn + 'a list" where
  "insert_by lt key x [] = Inr [x]"
| "insert_by lt key x (y # ys) =
     (case lt (key y) (key x) of
        Inl e \<Rightarrow> Inl e
      | Inr True \<Rightarrow> (case insert_by lt key x ys of Inl e \<Rightarrow> Inl e | Inr zs \<Rightarrow> Inr (y # zs))
      | Inr False \<Rightarrow> Inr (x # y # ys))"

fun sort_by :: "('k \<Rightarrow> 'k \<Rightarrow> exn + bool) \<Rightarrow> ('a \<Rightarrow> 'k) \<Rightarrow> 'a list \<Rightarrow> exn + 'a list" where
  "sort_by lt key [] = Inr []"
| "sort_by lt key (x # xs) =
     (case sort_by lt key xs of Inl e \<Rightarrow> Inl e | Inr ys \<Rightarrow> insert_by lt key x ys)"

definition sorted_reverse :: "('k \<Rightarrow> 'k \<Rightarrow> exn + bool) \<Rightarrow> ('a \<Rightarrow> 'k) \<Rightarrow> 'a list \<Rightarrow> exn + 'a list" where
  "sorted_reverse lt key xs =
     (case sort_by lt key (rev xs) of Inl e \<Rightarrow> Inl e | Inr ys \<Rightarrow> Inr (rev ys))"

text \<open>
  \<^verbatim>\<open>get_latest_tag(tags, current_value)\<close>: \<^verbatim>\<open>None\<close> for no tags, else the first tag of the
  sorted list (which is not empty, but the model keeps the \<^verbatim>\<open>IndexError\<close> of \<^verbatim>\<open>[0]\<close> as a
  branch, under \<open>OtherException\<close>).
\<close>

definition get_latest_tag :: "nat \<Rightarrow> string list \<Rightarrow> string \<Rightarrow> exn + string option" where
  "get_latest_tag lim tags current_value =
     (if tags = [] then Inr None
      else case sorted_reverse tuple_lt (parse_version lim) tags of
             Inl e \<Rightarrow> Inl e
           | Inr [] \<Rightarrow> Inl OtherException
           | Inr (t # _) \<Rightarrow> Inr (Some t))"

definition compare_versions :: "string \<Rightarrow> string \<Rightarrow> string" where
  "compare_versions current latest =
     (if current = latest then ''up-to-date'' else ''update-available'')"

section \<open>Extraction of the declarations\<close>

record tag_source =
  variable :: string
  current_value :: string
  skopeo_command :: string
  line_number :: nat

text \<open>
  The pattern of \<^verbatim>\<open>parse_image_tag_lines\<close>, in the three pieces in which the source writes
  it: \<^verbatim>\<open>^(\w+_image_tag):\s*\<close>, then \<^verbatim>\<open>["\']?([^"\'#\s]+)["\']?\s*\<close>, then
  \<^verbatim>\<open>#\s*(skopeo\s+list-tags\s+.+)$\<close>.
\<close>

definition variable_rx :: rx where
  "variable_rx =
     Seq (Grp 1 (Seq (Plus (Cls is_word)) (Lit ''_image_tag'')))
       (Seq (Lit '':'') (Star (Cls is_space)))"

definition value_rx :: rx where
  "value_rx =
     Seq (Opt (Cls is_quote))
       (Seq (Grp 2 (Plus (Cls is_value_char))) (Seq (Opt (Cls is_quote)) (Star (Cls is_space))))"

definition command_rx :: rx where
  "command_rx =
     Seq (Lit ''skopeo'') (Seq (Plus (Cls is_space))
       (Seq (Lit ''list-tags'') (Seq (Plus (Cls is_space)) (Plus (Cls is_dot)))))"

definition comment_rx :: rx where
  "comment_rx = Seq (Lit ''#'') (Seq (Star (Cls is_space)) (Seq (Grp 3 command_rx) Eos))"

definition pattern :: rx where
  "pattern = Seq variable_rx (Seq value_rx comment_rx)"

text \<open>
  \<^verbatim>\<open>parse_image_tag_lines\<close>, on the lines that iterating over the open file yields,
  numbered from 1.
\<close>

definition match_line :: "nat \<times> string \<Rightarrow> tag_source option" where
  "match_line nl =
     (case re_match pattern (strip (snd nl)) of
        None \<Rightarrow> None
      | Some m \<Rightarrow>
          Some \<lparr>variable = group m 1, current_value = group m 2,
                skopeo_command = group m 3, line_number = fst nl\<rparr>)"

definition parse_image_tag_lines :: "string list \<Rightarrow> tag_source list" where
  "parse_image_tag_lines f = List.map_filter match_line (enumerate 1 f)"

section \<open>Running the enumeration command\<close>

record completed_process =
  returncode :: int
  stdout :: string

text \<open>
  What \<^verbatim>\<open>subprocess.run\<close> does with a command and a timeout is the environment's part: it
  returns a completed process, or raises \<^verbatim>\<open>TimeoutExpired\<close> or another exception (all of
  them subclasses of \<^verbatim>\<open>Exception\<close>, the class the last handler catches).
\<close>

type_synonym subprocess = "string \<Rightarrow> int \<Rightarrow> exn + completed_process"

definition run_skopeo_command :: "subprocess \<Rightarrow> string \<Rightarrow> int \<Rightarrow> exn + string list option" where
  "run_skopeo_command run command timeout =
     (case run command timeout of
        Inl e \<Rightarrow> (if e = TimeoutExpired then Inr None else Inr None)
      | Inr result \<Rightarrow>
          if returncode result \<noteq> 0 then Inr None
          else Inr (Some (map strip
                 (filter (\<lambda>tag. strip tag \<noteq> [])
                    (split_on (\<lambda>c. c = newline) (strip (stdout result)))))))"

section \<open>One check\<close>

record check_result = tag_source +
  latest_value :: "string option"
  status :: string
  all_tags :: "string list"

text \<open>\<^verbatim>\<open>xs[i:]\<close>: a negative start counts from the end and is cut off at the start.\<close>

definition slice_from :: "int \<Rightarrow> 'a list \<Rightarrow> 'a list" where
  "slice_from i xs =
     (let n = int (length xs);
          start = (if i < 0 then max (n + i) 0 else min i n)
      in drop (nat start) xs)"

text \<open>
  The body of the loop of \<^verbatim>\<open>main\<close> for one declaration, without its printing: the record
  appended to \<^verbatim>\<open>results\<close>. \<^verbatim>\<open>if latest\<close> is false for \<^verbatim>\<open>None\<close> and for the empty text.
\<close>

definition check_item :: "nat \<Rightarrow> subprocess \<Rightarrow> int \<Rightarrow> tag_source \<Rightarrow> exn + check_result" where
  "check_item lim run timeout item =
     (case run_skopeo_command run (skopeo_command item) timeout of
        Inl e \<Rightarrow> Inl e
      | Inr None \<Rightarrow>
          Inr (tag_source.extend item
                 \<lparr>latest_value = None, status = ''error'', all_tags = []\<rparr>)
      | Inr (Some tags) \<Rightarrow>
          (case get_latest_tag lim tags (current_value item) of
             Inl e \<Rightarrow> Inl e
           | Inr latest \<Rightarrow>
               Inr (tag_source.extend item
                 \<lparr>latest_value = latest,
                  status = (case latest of
                              None \<Rightarrow> ''unknown''
                            | Some l \<Rightarrow> if l = [] then ''unknown''
                                        else compare_versions (current_value item) l),
                  all_tags = (if tags \<noteq> [] then slice_from (- 10) tags else [])\<rparr>)))"

section \<open>Notions used in the statements\<close>

text \<open>
  The keys that \<open>parse_version\<close> can return: the integers of a version, or the fallback
  pair of infinity and the tag.
\<close>

definition is_key :: "py_val list \<Rightarrow> bool" where
  "is_key k = ((\<exists>ns. k = map PInt ns) \<or> (\<exists>s. k = fallback s))"

text \<open>
  A rank for keys in a linear order of the library: integer keys by their integers, below
  the fallback keys, which are ordered by their text. \<open>key_lt_rank\<close> shows that \<^verbatim>\<open><\<close> on keys
  is \<open><\<close> on ranks.
\<close>

fun unint :: "py_val \<Rightarrow> int" where
  "unint (PInt n) = n"
| "unint _ = 0"

fun unstr :: "py_val \<Rightarrow> string" where
  "unstr (PStr s) = s"
| "unstr _ = []"

definition rank :: "py_val list \<Rightarrow> bool \<times> int list \<times> string" where
  "rank k = (if take 1 k = [PInf] then (True, [], unstr (k ! 1)) else (False, map unint k, []))"

text \<open>A text has a leading numeric run when it begins with a digit.\<close>

definition has_numeric_run :: "string \<Rightarrow> bool" where
  "has_numeric_run s = (case s of [] \<Rightarrow> False | c # _ \<Rightarrow> is_digit c)"

text \<open>
  The comparison of two sequences of integers in the words of the specification: position
  by position, the first position where they differ decides; a sequence that is a proper
  prefix of the other is the lesser; nothing is padded.
\<close>

definition spec_lex_lt :: "int list \<Rightarrow> int list \<Rightarrow> bool" where
  "spec_lex_lt xs ys =
     ((\<exists>i \<in> {..<min (length xs) (length ys)}. take i xs = take i ys \<and> xs ! i < ys ! i) \<or>
      (length xs < length ys \<and> take (length xs) ys = xs))"

text \<open>A text is made of digit runs when its pieces between separators are non-empty runs of digits.\<close>

definition digit_runs :: "string \<Rightarrow> bool" where
  "digit_runs w = list_all (\<lambda>p. p \<noteq> [] \<and> list_all is_digit p) (split_on is_sep w)"

text \<open>The segments of the leading numeric run of a text, when it has one.\<close>

definition version_parts :: "string \<Rightarrow> string list option" where
  "version_parts s = map_option (\<lambda>m. split_on is_sep (group m 1)) (re_match version_rx s)"

text \<open>
  The tag list in the words of the specification: the output is split on newlines, every
  line is trimmed, and the lines that are then empty are discarded.
\<close>

definition spec_tag_list :: "string \<Rightarrow> string list" where
  "spec_tag_list out =
     filter (\<lambda>line. line \<noteq> []) (map strip (split_on (\<lambda>c. c = newline) out))"

text \<open>
  The shape of a declaration line, for the statement about the extraction. A variable is
  one or more word characters followed by \<^verbatim>\<open>_image_tag\<close>. A quote is optional on each side
  of the value, on its own. A command is the word \<^verbatim>\<open>skopeo\<close>, whitespace, the word
  \<^verbatim>\<open>list-tags\<close>, whitespace, and a trailing text of at least one character without a
  newline. A line has the shape when it is a variable, a colon, optional whitespace, an
  optionally quoted non-empty value without whitespace, quote or \<^verbatim>\<open>#\<close>, optional whitespace,
  a \<^verbatim>\<open>#\<close>, optional whitespace and a command.
\<close>

definition opt_quote :: "string \<Rightarrow> bool" where
  "opt_quote q = (length q \<le> 1 \<and> list_all is_quote q)"

definition is_variable :: "string \<Rightarrow> bool" where
  "is_variable var = (\<exists>name. var = name @ ''_image_tag'' \<and> name \<noteq> [] \<and> list_all is_word name)"

definition is_command :: "string \<Rightarrow> bool" where
  "is_command cmd =
     (\<exists>sp1 sp2 args. cmd = ''skopeo'' @ sp1 @ ''list-tags'' @ sp2 @ args \<and>
        sp1 \<noteq> [] \<and> list_all is_space sp1 \<and> sp2 \<noteq> [] \<and> list_all is_space sp2 \<and>
        args \<noteq> [] \<and> list_all is_dot args)"

definition line_shape :: "string \<Rightarrow> string \<Rightarrow> string \<Rightarrow> string \<Rightarrow> bool" where
  "line_shape s var val cmd =
     (\<exists>ws1 q1 q2 ws2 ws3.
        s = var @ '':'' @ ws1 @ q1 @ val @ q2 @ ws2 @ ''#'' @ ws3 @ cmd \<and>
        is_variable var \<and> list_all is_space ws1 \<and> opt_quote q1 \<and>
        val \<noteq> [] \<and> list_all is_value_char val \<and> opt_quote q2 \<and>
        list_all is_space ws2 \<and> list_all is_space ws3 \<and> is_command cmd)"

text \<open>The text of the comment of a line: what follows the first \<^verbatim>\<open>#\<close> and the whitespace after it.\<close>

definition comment_text :: "string \<Rightarrow> string" where
  "comment_text s = dropWhile is_space (tl (dropWhile (\<lambda>c. c \<noteq> CHR ''#'') s))"

text \<open>The line and the command of the example of the specification.\<close>

definition example_line :: string where
  "example_line =
     ''foo_image_tag: '' @ [CHR 0x22] @ ''1.2.3'' @ [CHR 0x22] @
     ''  # skopeo list-tags docker://x | jq -r '' @ [CHR 0x27] @ ''.Tags[]'' @ [CHR 0x27]"

definition example_command :: string where
  "example_command =
     ''skopeo list-tags docker://x | jq -r '' @ [CHR 0x27] @ ''.Tags[]'' @ [CHR 0x27]"

text \<open>
  What a pattern does, as a relation: \<open>sem_of r R\<close> says that the ways in which \<open>r\<close> matches a
  text \<open>s\<close> with groups \<open>g\<close> are the splits of \<open>s\<close> into a consumed \<open>w\<close> and a rest \<open>t\<close> with
  \<open>R w t g g'\<close>, \<open>g'\<close> being the groups afterwards.
\<close>

definition sem_of :: "rx \<Rightarrow> (string \<Rightarrow> string \<Rightarrow> groups \<Rightarrow> groups \<Rightarrow> bool) \<Rightarrow> bool" where
  "sem_of r R =
     (\<forall>s g y. y \<in> set (ms r (s, g)) \<longleftrightarrow> (\<exists>w. s = w @ fst y \<and> R w (fst y) g (snd y)))"

text \<open>
  The value of a run of digits, by the place of each digit: the digit at position \<open>i\<close> of
  a run of \<open>n\<close> digits counts for its value times ten to the \<open>n - 1 - i\<close>.
\<close>

definition decimal_value :: "string \<Rightarrow> int" where
  "decimal_value ds = (\<Sum>i<length ds. digit_val (ds ! i) * 10 ^ (length ds - Suc i))"

text \<open>
  A tag made of numeric segments: a non-empty run of digits \<open>d\<close>, then the pairs \<open>ps\<close> of one
  separator and one non-empty run of digits. \<open>run_text d ps\<close> is its text, and \<open>d # map snd ps\<close>
  are its segments.
\<close>

definition is_run :: "string \<Rightarrow> bool" where
  "is_run p = (p \<noteq> [] \<and> list_all is_digit p)"

definition tail_text :: "(char \<times> string) list \<Rightarrow> string" where
  "tail_text ps = concat (map (\<lambda>cp. fst cp # snd cp) ps)"

definition run_text :: "string \<Rightarrow> (char \<times> string) list \<Rightarrow> string" where
  "run_text d ps = d @ tail_text ps"

definition runs_ok :: "string \<Rightarrow> (char \<times> string) list \<Rightarrow> bool" where
  "runs_ok d ps = (is_run d \<and> list_all (\<lambda>cp. is_sep (fst cp) \<and> is_run (snd cp)) ps)"

text \<open>
  A text at which the numeric segments end: it is empty, or it begins neither with a digit
  nor with a separator that a digit follows.
\<close>

definition stops :: "string \<Rightarrow> bool" where
  "stops r =
     (case r of
        [] \<Rightarrow> True
      | c # r' \<Rightarrow> \<not> is_digit c \<and> \<not> (is_sep c \<and> (case r' of [] \<Rightarrow> False | d # _ \<Rightarrow> is_digit d)))"

text \<open>
  The numeric segments with which a text begins, read from left to right: the leading run
  of digits, then one more run for every separator that a digit follows directly.
  \<open>segment_values tag\<close> are their values for a tag, once its prefix is removed.
\<close>

function tail_segments :: "string \<Rightarrow> string list" where
  "tail_segments [] = []"
| "tail_segments [c] = []"
| "tail_segments (c # d # u) =
     (if is_sep c \<and> is_digit d
      then (d # takeWhile is_digit u) # tail_segments (dropWhile is_digit u)
      else [])"
  by pat_completeness auto
termination
  by (relation "measure length") (simp_all add: length_dropWhile_le le_imp_less_Suc less_SucI)

definition numeric_segments :: "string \<Rightarrow> string list" where
  "numeric_segments s =
     (if has_numeric_run s then takeWhile is_digit s # tail_segments (dropWhile is_digit s)
      else [])"

definition segment_values :: "string \<Rightarrow> int list" where
  "segment_values tag = map decimal_value (numeric_segments (remove_prefix tag))"

text \<open>
  A run of digits that the conversion to an integer accepts: of at most 640 digits, or of
  no more digits than the limit, or with no limit set.
\<close>

definition within_digit_limit :: "nat \<Rightarrow> string \<Rightarrow> bool" where
  "within_digit_limit lim p = (length p \<le> 640 \<or> lim = 0 \<or> length p \<le> lim)"


section \<open>The order of the keys\<close>

lemma str_lt_less: "str_lt s t = (s < t)"
  by (induction s t rule: str_lt.induct) (auto simp: ord_def less_char_def)

lemma tuple_lt_ints: "tuple_lt (map PInt xs) (map PInt ys) = Inr (xs < ys)"
  by (induction xs arbitrary: ys; case_tac ys) auto

lemma tuple_lt_int_fallback: "tuple_lt (map PInt xs) (fallback s) = Inr True"
  by (cases xs) (simp_all add: fallback_def)

lemma tuple_lt_fallback_int: "tuple_lt (fallback s) (map PInt ys) = Inr False"
  by (cases ys) (simp_all add: fallback_def)

lemma tuple_lt_fallbacks: "tuple_lt (fallback s) (fallback t) = Inr (str_lt s t)"
  by (simp add: fallback_def str_lt_less)

lemma is_key_parse_version: "is_key (parse_version lim tag)"
  by (auto simp: parse_version_def is_key_def Let_def split: option.splits sum.splits)

lemma rank_ints: "rank (map PInt ns) = (False, ns, [])"
  by (cases ns) (simp_all add: rank_def comp_def)

lemma rank_fallback: "rank (fallback s) = (True, [], s)"
  by (simp add: rank_def fallback_def)

lemma key_lt_rank: "is_key a \<Longrightarrow> is_key b \<Longrightarrow> tuple_lt a b = Inr (rank a < rank b)"
  by (auto simp: is_key_def rank_ints rank_fallback tuple_lt_ints tuple_lt_int_fallback
      tuple_lt_fallback_int tuple_lt_fallbacks str_lt_less)

lemma rank_inj: "is_key a \<Longrightarrow> is_key b \<Longrightarrow> rank a = rank b \<Longrightarrow> a = b"
  by (auto simp: is_key_def rank_ints rank_fallback)

lemma insert_by_insort:
  "\<forall>y\<in>set (x # ys). is_key (key y) \<Longrightarrow>
   insert_by tuple_lt key x ys = Inr (insort_key (rank \<circ> key) x ys)"
  by (induction ys) (auto simp: key_lt_rank not_le dest: leD)

lemma sort_by_sort_key:
  "\<forall>y\<in>set xs. is_key (key y) \<Longrightarrow> sort_by tuple_lt key xs = Inr (sort_key (rank \<circ> key) xs)"
  by (induction xs) (auto simp: insert_by_insort)

lemma sorted_reverse_sort_key:
  "\<forall>y\<in>set xs. is_key (key y) \<Longrightarrow>
   sorted_reverse tuple_lt key xs = Inr (rev (sort_key (rank \<circ> key) (rev xs)))"
  by (simp add: sorted_reverse_def sort_by_sort_key)

lemma last_filter_last: "ys \<noteq> [] \<Longrightarrow> P (last ys) \<Longrightarrow> last (filter P ys) = last ys"
  by (cases ys rule: rev_cases) auto

lemma last_sort_key_first_max:
  fixes f :: "'a \<Rightarrow> 'b::linorder"
  assumes "xs \<noteq> []"
  shows "\<exists>pre post. xs = pre @ last (sort_key f (rev xs)) # post \<and>
           (\<forall>u\<in>set pre. f u < f (last (sort_key f (rev xs)))) \<and>
           (\<forall>u\<in>set post. f u \<le> f (last (sort_key f (rev xs))))"
proof -
  let ?ys = "sort_key f (rev xs)"
  let ?t = "last ?ys"
  let ?P = "\<lambda>y. f y = f ?t"
  have ne: "?ys \<noteq> []" using assms by (metis length_0_conv length_rev length_sort)
  have srt: "sorted (map f ?ys)" by (rule sorted_sort_key)
  have mx: "f u \<le> f ?t" if "u \<in> set xs" for u
  proof -
    from that have "u \<in> set ?ys" by simp
    then obtain i where i: "i < length ?ys" "?ys ! i = u" by (metis in_set_conv_nth)
    have "map f ?ys ! i \<le> map f ?ys ! (length ?ys - 1)"
      using srt i(1) by (intro sorted_nth_mono) auto
    then show ?thesis using i ne by (simp add: last_conv_nth)
  qed
  have "filter ?P ?ys = filter ?P (rev xs)"
    by (rule sort_key_stable)
  moreover have "last (filter ?P ?ys) = ?t"
    using ne by (simp add: last_filter_last)
  ultimately have lst: "last (rev (filter ?P xs)) = ?t"
    by (simp add: rev_filter)
  have "?t \<in> set ?ys" using ne by (rule last_in_set)
  then have "?t \<in> set xs" by simp
  then have fne: "filter ?P xs \<noteq> []" by (auto simp: filter_empty_conv)
  from lst have "hd (filter ?P xs) = ?t" by (simp add: last_rev)
  with fne have "filter ?P xs = ?t # tl (filter ?P xs)" by (metis list.collapse)
  then obtain pre post where pp: "xs = pre @ ?t # post" "\<forall>u\<in>set pre. \<not> ?P u"
    unfolding filter_eq_Cons_iff by blast
  have "\<forall>u\<in>set pre. f u < f ?t"
  proof
    fix u assume u: "u \<in> set pre"
    then have "u \<in> set xs" using pp(1) by (metis Un_iff set_append)
    then have "f u \<le> f ?t" by (rule mx)
    moreover have "f u \<noteq> f ?t" using pp(2) u by blast
    ultimately show "f u < f ?t" by simp
  qed
  moreover have "\<forall>u\<in>set post. f u \<le> f ?t"
  proof
    fix u assume u: "u \<in> set post"
    then have "u \<in> set xs" using pp(1) by (metis Un_iff list.set_intros(2) set_append)
    then show "f u \<le> f ?t" by (rule mx)
  qed
  ultimately show ?thesis using pp(1) by blast
qed

lemma star_iter_nonempty: "star_iter n f x \<noteq> []"
  by (cases n) simp_all

lemma version_rx_no_run: "\<not> has_numeric_run s \<Longrightarrow> re_match version_rx s = None"
  by (cases s) (simp_all add: has_numeric_run_def re_match_def version_rx_def)

lemma version_rx_run: "has_numeric_run s \<Longrightarrow> re_match version_rx s \<noteq> None"
proof -
  assume "has_numeric_run s"
  then obtain c cs where s: "s = c # cs" "is_digit c"
    by (auto simp: has_numeric_run_def split: list.splits)
  let ?g = "Map.empty :: groups"
  let ?rest = "Star (Seq (Cls is_sep) (Plus (Cls is_digit)))"
  obtain y ys where y: "ms (Plus (Cls is_digit)) (s, ?g) = y # ys"
    using s star_iter_nonempty [of "length cs" "ms (Cls is_digit)" "(cs, ?g)"]
    by (cases "star_iter (length cs) (ms (Cls is_digit)) (cs, ?g)") auto
  obtain z zs where z: "ms ?rest y = z # zs"
    using star_iter_nonempty [of "length (fst y)" "ms (Seq (Cls is_sep) (Plus (Cls is_digit)))" y]
    by (cases "ms ?rest y") auto
  have "ms (Seq (Plus (Cls is_digit)) ?rest) (s, ?g) = z # zs @ concat (map (ms ?rest) ys)"
    using y z by simp
  then show ?thesis
    by (simp add: re_match_def version_rx_def)
qed

lemma parse_version_cases:
  "parse_version lim tag = fallback tag \<or> (\<exists>ns. parse_version lim tag = map PInt ns)"
  by (auto simp: parse_version_def Let_def split: option.splits sum.splits)

lemma parse_version_fallback_self: "parse_version lim tag = fallback s \<Longrightarrow> s = tag"
  using parse_version_cases [of lim tag] by (auto simp: fallback_def)

lemma sorted_reverse_tags:
  "sorted_reverse tuple_lt (parse_version lim) tags =
     Inr (rev (sort_key (rank \<circ> parse_version lim) (rev tags)))"
  by (rule sorted_reverse_sort_key) (simp add: is_key_parse_version)

lemma get_latest_tag_eq:
  "tags \<noteq> [] \<Longrightarrow>
   get_latest_tag lim tags c = Inr (Some (last (sort_key (rank \<circ> parse_version lim) (rev tags))))"
proof -
  assume ne: "tags \<noteq> []"
  let ?ys = "sort_key (rank \<circ> parse_version lim) (rev tags)"
  have "rev ?ys \<noteq> []" using ne by (metis length_0_conv length_rev length_sort)
  then obtain t r where tr: "rev ?ys = t # r" by (cases "rev ?ys") auto
  then have t: "t = last ?ys" by (metis hd_rev list.sel(1))
  have "get_latest_tag lim tags c =
          (case rev ?ys of [] \<Rightarrow> Inl OtherException | t # _ \<Rightarrow> Inr (Some t))"
    using ne by (simp add: get_latest_tag_def sorted_reverse_tags)
  also have "\<dots> = Inr (Some t)" unfolding tr by simp
  finally show ?thesis using t by simp
qed

lemma spec_lex_lt_less: "spec_lex_lt xs ys = (xs < ys)"
proof (induction xs arbitrary: ys)
  case Nil
  then show ?case by (cases ys) (simp_all add: spec_lex_lt_def)
next
  case (Cons x xs)
  show ?case
  proof (cases ys)
    case Nil
    then show ?thesis by (simp add: spec_lex_lt_def)
  next
    case (Cons y ys')
    have "spec_lex_lt (x # xs) (y # ys') = (x < y \<or> x = y \<and> spec_lex_lt xs ys')"
      by (auto simp: spec_lex_lt_def lessThan_Suc_eq_insert_0)
    then show ?thesis using Cons Cons.IH by simp
  qed
qed

section \<open>Prefixes and examples of keys\<close>

lemma parse_version_parts:
  "parse_version lim tag =
     (case version_parts (remove_prefix tag) of
        None \<Rightarrow> fallback tag
      | Some parts \<Rightarrow> (case py_ints lim parts of Inr ns \<Rightarrow> map PInt ns | Inl e \<Rightarrow> fallback tag))"
  by (simp add: parse_version_def version_parts_def Let_def split: option.splits)

lemma py_int_digit: "is_digit c \<Longrightarrow> py_int lim [c] = Inr (digit_val c)"
  by (auto simp: py_int_def)

lemma remove_prefix_eq:
  "remove_prefix tag = (if startswith (lower tag) ''v'' then drop 1 tag else tag)"
proof -
  have "startswith (lower tag) ''v''" if "startswith (lower tag) (CHR ''v'' # p)" for p
    using that by (cases tag) (auto simp: startswith_def lower_def)
  then show ?thesis
    by (auto simp: remove_prefix_def prefixes_def)
qed

lemma lower_lower: "lower ''version-'' = ''version-''"
  by code_simp

lemma startswith_lower:
  "lower p = p \<Longrightarrow> startswith tag p \<Longrightarrow> startswith (lower tag) p"
  by (metis startswith_def lower_def take_map length_map)

lemma remove_prefix_v365: "remove_prefix ''v3.6.5'' = ''3.6.5''"
  by code_simp

lemma remove_prefix_365: "remove_prefix ''3.6.5'' = ''3.6.5''"
  by code_simp

lemma version_parts_365: "version_parts ''3.6.5'' = Some [''3'', ''6'', ''5'']"
  by code_simp

lemma digits_365: "is_digit CHR ''3'' \<and> is_digit CHR ''6'' \<and> is_digit CHR ''5''"
  by code_simp

lemma parse_version_v365: "parse_version lim ''v3.6.5'' = [PInt 3, PInt 6, PInt 5]"
  using digits_365
  by (simp add: parse_version_parts remove_prefix_v365 version_parts_365 py_int_digit
      digit_val_def ord_def)

lemma parse_version_365: "parse_version lim ''3.6.5'' = [PInt 3, PInt 6, PInt 5]"
  using digits_365
  by (simp add: parse_version_parts remove_prefix_365 version_parts_365 py_int_digit
      digit_val_def ord_def)

section \<open>Stripping of the prefix\<close>

text \<open>
  Claim C5. At most one prefix is stripped: the first of \<^verbatim>\<open>"v"\<close>, \<^verbatim>\<open>"version-v"\<close>, \<^verbatim>\<open>"version-"\<close> that
  the lower-cased tag starts with. The keys of \<^verbatim>\<open>"v3.6.5"\<close> and \<^verbatim>\<open>"3.6.5"\<close> are equal. A tag
  that begins with \<^verbatim>\<open>"version-"\<close> loses its leading \<^verbatim>\<open>v\<close> only: whenever the second or the
  third prefix matches, so does the first, so that the function strips one character or
  nothing.
\<close>

theorem prefix_priority:
  "remove_prefix tag =
     (if startswith (lower tag) ''v'' then drop (length ''v'') tag
      else if startswith (lower tag) ''version-v'' then drop (length ''version-v'') tag
      else if startswith (lower tag) ''version-'' then drop (length ''version-'') tag
      else tag)
   \<and> parse_version lim ''v3.6.5'' = parse_version lim ''3.6.5''
   \<and> (startswith tag ''version-'' \<longrightarrow> remove_prefix tag = drop 1 tag)
   \<and> (startswith (lower tag) ''version-v'' \<or> startswith (lower tag) ''version-''
        \<longrightarrow> startswith (lower tag) ''v'')
   \<and> remove_prefix tag = (if startswith (lower tag) ''v'' then drop 1 tag else tag)"
proof -
  have a: "remove_prefix tag =
     (if startswith (lower tag) ''v'' then drop (length ''v'') tag
      else if startswith (lower tag) ''version-v'' then drop (length ''version-v'') tag
      else if startswith (lower tag) ''version-'' then drop (length ''version-'') tag
      else tag)"
    by (simp add: remove_prefix_def prefixes_def)
  have b: "parse_version lim ''v3.6.5'' = parse_version lim ''3.6.5''"
    by (simp only: parse_version_v365 parse_version_365)
  have v: "startswith (lower tag) ''v''" if "startswith (lower tag) (CHR ''v'' # p)" for p
    using that by (cases tag) (auto simp: startswith_def lower_def)
  have c: "startswith tag ''version-'' \<longrightarrow> remove_prefix tag = drop 1 tag"
  proof
    assume "startswith tag ''version-''"
    then have "startswith (lower tag) ''version-''"
      by (rule startswith_lower [OF lower_lower])
    then have "startswith (lower tag) ''v''" by (rule v)
    then show "remove_prefix tag = drop 1 tag" by (simp add: remove_prefix_eq)
  qed
  have d: "startswith (lower tag) ''version-v'' \<or> startswith (lower tag) ''version-''
        \<longrightarrow> startswith (lower tag) ''v''"
    using v by blast
  from a b c d remove_prefix_eq [of tag] show ?thesis by blast
qed

text \<open>The tag \<^verbatim>\<open>"version-v3.13"\<close> keeps \<^verbatim>\<open>"ersion-v3.13"\<close>.\<close>

theorem prefix_priority_witness:
  "startswith ''version-v3.13'' ''version-'' \<and> remove_prefix ''version-v3.13'' = ''ersion-v3.13''
   \<and> startswith (lower ''version-v3.13'') ''version-v''
   \<and> startswith (lower ''version-v3.13'') ''v''"
proof -
  have h: "startswith ''version-v3.13'' ''version-''" by code_simp
  have h2: "startswith (lower ''version-v3.13'') ''version-v''" by code_simp
  have "drop 1 ''version-v3.13'' = ''ersion-v3.13''" by simp
  with prefix_priority [of "''version-v3.13''" 4300] h h2 show ?thesis by metis
qed

text \<open>
  Claim C9. Recognition of the prefixes ignores letter case, and the claim has each of the
  three prefixes stripped from a tag that begins with it. The docstring of
  \<^verbatim>\<open>parse_version\<close> gives \<^verbatim>\<open>"version-v3.13" -> (3, 13)\<close>. On that tag the function strips the
  \<^verbatim>\<open>v\<close> alone, finds no digit at the start of \<^verbatim>\<open>"ersion-v3.13"\<close> and returns the fallback
  key, whatever the limit on digits. The part of the claim on letter case holds for the one
  prefix that is reachable: the keys of \<^verbatim>\<open>"V3.6.5"\<close> and \<^verbatim>\<open>"3.6.5"\<close> are equal.
\<close>

theorem version_prefix_not_stripped:
  "parse_version lim ''version-v3.13'' = [PInf, PStr ''version-v3.13'']
   \<and> parse_version lim ''version-v3.13'' \<noteq> [PInt 3, PInt 13]
   \<and> remove_prefix ''version-v3.13'' = ''ersion-v3.13''
   \<and> parse_version lim ''V3.6.5'' = parse_version lim ''3.6.5''"
proof -
  have r: "remove_prefix ''version-v3.13'' = ''ersion-v3.13''" by code_simp
  have "\<not> has_numeric_run ''ersion-v3.13''" by code_simp
  then have "re_match version_rx ''ersion-v3.13'' = None" by (rule version_rx_no_run)
  then have "parse_version lim ''version-v3.13'' = fallback ''version-v3.13''"
    by (simp add: parse_version_def r)
  then have a: "parse_version lim ''version-v3.13'' = [PInf, PStr ''version-v3.13'']"
    by (simp add: fallback_def)
  have "remove_prefix ''V3.6.5'' = ''3.6.5''" by code_simp
  then have "parse_version lim ''V3.6.5'' = [PInt 3, PInt 6, PInt 5]"
    using digits_365
    by (simp add: parse_version_parts version_parts_365 py_int_digit digit_val_def ord_def)
  then have b: "parse_version lim ''V3.6.5'' = parse_version lim ''3.6.5''"
    by (simp only: parse_version_365)
  from a b r show ?thesis by simp
qed

section \<open>Comparison of integer keys\<close>

lemma py_int_short:
  "p \<noteq> [] \<Longrightarrow> list_all is_digit p \<Longrightarrow> length p \<le> 640 \<Longrightarrow>
   py_int lim p = Inr (foldl (\<lambda>a c. 10 * a + digit_val c) 0 p)"
  by (simp add: py_int_def)

lemma ex_16_9: "parse_version lim ''16.9'' = [PInt 16, PInt 9]"
proof -
  have "remove_prefix ''16.9'' = ''16.9''" by code_simp
  moreover have "version_parts ''16.9'' = Some [''16'', ''9'']" by code_simp
  moreover have "list_all is_digit ''16'' \<and> list_all is_digit ''9''" by code_simp
  ultimately show ?thesis
    by (simp add: parse_version_parts py_int_short digit_val_def ord_def)
qed

lemma ex_16_11: "parse_version lim ''16.11'' = [PInt 16, PInt 11]"
proof -
  have "remove_prefix ''16.11'' = ''16.11''" by code_simp
  moreover have "version_parts ''16.11'' = Some [''16'', ''11'']" by code_simp
  moreover have "list_all is_digit ''16'' \<and> list_all is_digit ''11''" by code_simp
  ultimately show ?thesis
    by (simp add: parse_version_parts py_int_short digit_val_def ord_def)
qed

lemma ex_16: "parse_version lim ''16'' = [PInt 16]"
proof -
  have "remove_prefix ''16'' = ''16''" by code_simp
  moreover have "version_parts ''16'' = Some [''16'']" by code_simp
  moreover have "list_all is_digit ''16''" by code_simp
  ultimately show ?thesis
    by (simp add: parse_version_parts py_int_short digit_val_def ord_def)
qed

lemma ex_16_0: "parse_version lim ''16.0'' = [PInt 16, PInt 0]"
proof -
  have "remove_prefix ''16.0'' = ''16.0''" by code_simp
  moreover have "version_parts ''16.0'' = Some [''16'', ''0'']" by code_simp
  moreover have "list_all is_digit ''16'' \<and> list_all is_digit ''0''" by code_simp
  ultimately show ?thesis
    by (simp add: parse_version_parts py_int_short digit_val_def ord_def)
qed


section \<open>Selection of the latest tag\<close>

lemma key_lt_tags:
  "tuple_lt (parse_version lim a) (parse_version lim b) =
     Inr (rank (parse_version lim a) < rank (parse_version lim b))"
  by (rule key_lt_rank) (rule is_key_parse_version)+

lemma latest_first_max:
  assumes "tags \<noteq> []"
  shows "\<exists>t pre post. get_latest_tag lim tags c = Inr (Some t) \<and> tags = pre @ t # post \<and>
           (\<forall>u\<in>set pre. tuple_lt (parse_version lim u) (parse_version lim t) = Inr True) \<and>
           (\<forall>u\<in>set post. tuple_lt (parse_version lim t) (parse_version lim u) = Inr False)"
proof -
  let ?f = "rank \<circ> parse_version lim"
  let ?t = "last (sort_key ?f (rev tags))"
  from last_sort_key_first_max [OF assms, of ?f]
  obtain pre post where pp: "tags = pre @ ?t # post"
    "\<forall>u\<in>set pre. ?f u < ?f ?t" "\<forall>u\<in>set post. ?f u \<le> ?f ?t"
    by blast
  have "\<forall>u\<in>set pre. tuple_lt (parse_version lim u) (parse_version lim ?t) = Inr True"
    using pp(2) by (simp add: key_lt_tags)
  moreover have "\<forall>u\<in>set post. tuple_lt (parse_version lim ?t) (parse_version lim u) = Inr False"
    using pp(3) by (simp add: key_lt_tags not_less)
  ultimately show ?thesis
    using pp(1) get_latest_tag_eq [OF assms, of lim c] by blast
qed

lemma sorted_reverse_props:
  "\<exists>sorted_tags. sorted_reverse tuple_lt (parse_version lim) tags = Inr sorted_tags \<and>
     mset sorted_tags = mset tags \<and>
     sorted_wrt (\<lambda>a b. tuple_lt (parse_version lim a) (parse_version lim b) = Inr False)
       sorted_tags \<and>
     (\<forall>k. filter (\<lambda>t. parse_version lim t = k) sorted_tags =
          filter (\<lambda>t. parse_version lim t = k) tags)"
proof -
  let ?f = "rank \<circ> parse_version lim"
  let ?ys = "sort_key ?f (rev tags)"
  have a: "sorted_reverse tuple_lt (parse_version lim) tags = Inr (rev ?ys)"
    by (rule sorted_reverse_tags)
  have b: "mset (rev ?ys) = mset tags" by simp
  have "sorted (map ?f ?ys)" by (rule sorted_sort_key)
  then have "sorted_wrt (\<lambda>a b. ?f a \<le> ?f b) ?ys"
    by (simp add: sorted_map)
  then have "sorted_wrt (\<lambda>a b. ?f b \<le> ?f a) (rev ?ys)"
    by (simp add: sorted_wrt_rev)
  then have c: "sorted_wrt (\<lambda>a b. tuple_lt (parse_version lim a) (parse_version lim b) = Inr False)
       (rev ?ys)"
    by (simp add: key_lt_tags not_less)
  have d: "filter (\<lambda>t. parse_version lim t = k) (rev ?ys) =
          filter (\<lambda>t. parse_version lim t = k) tags" for k
  proof (cases "\<exists>u. parse_version lim u = k")
    case True
    then obtain u where u: "parse_version lim u = k" by blast
    have eq: "(parse_version lim t = k) = (?f t = ?f u)" for t
      using rank_inj [OF is_key_parse_version is_key_parse_version, of lim t lim u] u by auto
    have "filter (\<lambda>t. ?f t = ?f u) ?ys = filter (\<lambda>t. ?f t = ?f u) (rev tags)"
      by (rule sort_key_stable)
    then have "rev (filter (\<lambda>t. ?f t = ?f u) ?ys) = rev (filter (\<lambda>t. ?f t = ?f u) (rev tags))"
      by simp
    then show ?thesis by (simp add: eq rev_filter)
  next
    case False
    then show ?thesis by simp
  qed
  from a b c d show ?thesis by blast
qed


text \<open>
  Claim C2. For no tags there is no latest tag. For a non-empty list the sort raises
  nothing; its result is a permutation of the tags, in descending order of the keys, with
  the tags of any one key in their original order; the latest tag is its first element.
  That tag is the first one of the input with a greatest key: every tag before it has a
  smaller key, and no tag after it has a greater one.
\<close>

theorem latest_first_of_stable_sort:
  "get_latest_tag lim [] c = Inr None \<and>
   (tags \<noteq> [] \<longrightarrow>
      (\<exists>sorted_tags.
         sorted_reverse tuple_lt (parse_version lim) tags = Inr sorted_tags \<and>
         sorted_tags \<noteq> [] \<and>
         get_latest_tag lim tags c = Inr (Some (hd sorted_tags)) \<and>
         mset sorted_tags = mset tags \<and>
         sorted_wrt (\<lambda>a b. tuple_lt (parse_version lim a) (parse_version lim b) = Inr False)
           sorted_tags \<and>
         (\<forall>k. filter (\<lambda>t. parse_version lim t = k) sorted_tags =
              filter (\<lambda>t. parse_version lim t = k) tags)) \<and>
      (\<exists>t pre post.
         get_latest_tag lim tags c = Inr (Some t) \<and> tags = pre @ t # post \<and>
         (\<forall>u\<in>set pre. tuple_lt (parse_version lim u) (parse_version lim t) = Inr True) \<and>
         (\<forall>u\<in>set post. tuple_lt (parse_version lim t) (parse_version lim u) = Inr False)))"
proof -
  have e: "get_latest_tag lim [] c = Inr None"
    by (simp add: get_latest_tag_def)
  have s: "\<exists>sorted_tags.
         sorted_reverse tuple_lt (parse_version lim) tags = Inr sorted_tags \<and>
         sorted_tags \<noteq> [] \<and>
         get_latest_tag lim tags c = Inr (Some (hd sorted_tags)) \<and>
         mset sorted_tags = mset tags \<and>
         sorted_wrt (\<lambda>a b. tuple_lt (parse_version lim a) (parse_version lim b) = Inr False)
           sorted_tags \<and>
         (\<forall>k. filter (\<lambda>t. parse_version lim t = k) sorted_tags =
              filter (\<lambda>t. parse_version lim t = k) tags)" if ne: "tags \<noteq> []"
  proof -
    from sorted_reverse_props [of lim tags] obtain st where st:
      "sorted_reverse tuple_lt (parse_version lim) tags = Inr st" "mset st = mset tags"
      "sorted_wrt (\<lambda>a b. tuple_lt (parse_version lim a) (parse_version lim b) = Inr False) st"
      "\<forall>k. filter (\<lambda>t. parse_version lim t = k) st = filter (\<lambda>t. parse_version lim t = k) tags"
      by blast
    have n: "st \<noteq> []" using st(2) ne by auto
    then have "get_latest_tag lim tags c = Inr (Some (hd st))"
      using ne st(1) by (cases st) (simp_all add: get_latest_tag_def)
    with st n show ?thesis by blast
  qed
  from e s latest_first_max [of tags lim c] show ?thesis by blast
qed

text \<open>Of the two tags with the greatest key, \<^verbatim>\<open>"v16.11"\<close> comes first and is the latest.\<close>

theorem latest_first_of_stable_sort_witness:
  "[''16.9'', ''v16.11'', ''16.11'', ''3''] \<noteq> [] \<and>
   get_latest_tag 4300 [''16.9'', ''v16.11'', ''16.11'', ''3''] ''16.9'' = Inr (Some ''v16.11'') \<and>
   (\<exists>pre post. [''16.9'', ''v16.11'', ''16.11'', ''3''] = pre @ ''v16.11'' # post \<and>
      (\<forall>u\<in>set pre. tuple_lt (parse_version 4300 u) (parse_version 4300 ''v16.11'') = Inr True) \<and>
      (\<forall>u\<in>set post. tuple_lt (parse_version 4300 ''v16.11'') (parse_version 4300 u) = Inr False))"
proof -
  let ?tags = "[''16.9'', ''v16.11'', ''16.11'', ''3'']"
  have ne: "?tags \<noteq> []" by simp
  have g: "get_latest_tag 4300 ?tags ''16.9'' = Inr (Some ''v16.11'')" by code_simp
  from latest_first_of_stable_sort [of 4300 "''16.9''" ?tags] ne
  obtain t pre post where t: "get_latest_tag 4300 ?tags ''16.9'' = Inr (Some t)"
    "?tags = pre @ t # post"
    "\<forall>u\<in>set pre. tuple_lt (parse_version 4300 u) (parse_version 4300 t) = Inr True"
    "\<forall>u\<in>set post. tuple_lt (parse_version 4300 t) (parse_version 4300 u) = Inr False"
    by blast
  from t(1) g have "t = ''v16.11''" by simp
  with t ne g show ?thesis by blast
qed

text \<open>
  Claim C10. The latest tag does not depend on the current value: two current values give
  the same result of \<^verbatim>\<open>get_latest_tag\<close> on the same tags.
\<close>

theorem latest_independent_of_current:
  "get_latest_tag lim tags c1 = get_latest_tag lim tags c2"
  by (simp add: get_latest_tag_def)

section \<open>Fallback keys\<close>

lemma parse_version_fallback_iff:
  "(parse_version lim tag = fallback tag) =
     (\<not> has_numeric_run (remove_prefix tag) \<or>
      (\<exists>parts e. version_parts (remove_prefix tag) = Some parts \<and> py_ints lim parts = Inl e))"
proof (cases "has_numeric_run (remove_prefix tag)")
  case False
  then show ?thesis
    by (simp add: parse_version_def version_rx_no_run)
next
  case True
  then obtain parts where p: "version_parts (remove_prefix tag) = Some parts"
    using version_rx_run [of "remove_prefix tag"] by (auto simp: version_parts_def)
  show ?thesis
  proof (cases "py_ints lim parts")
    case (Inl e)
    with p True show ?thesis by (simp add: parse_version_parts)
  next
    case (Inr ns)
    with p True show ?thesis by (auto simp: parse_version_parts fallback_def)
  qed
qed


lemma latest_is_fallback:
  assumes "t \<in> set tags" "parse_version lim t = fallback t"
  shows "\<exists>u. get_latest_tag lim tags c = Inr (Some u) \<and> u \<in> set tags \<and>
           parse_version lim u = fallback u"
proof -
  from assms(1) have ne: "tags \<noteq> []" by auto
  from latest_first_max [OF ne, of lim c]
  obtain u pre post where u: "get_latest_tag lim tags c = Inr (Some u)" "tags = pre @ u # post"
    "\<forall>x\<in>set pre. tuple_lt (parse_version lim x) (parse_version lim u) = Inr True"
    "\<forall>x\<in>set post. tuple_lt (parse_version lim u) (parse_version lim x) = Inr False"
    by blast
  have mem: "u \<in> set tags" using u(2) by simp
  have nl: "tuple_lt (parse_version lim u) (parse_version lim t) = Inr False"
  proof -
    from assms(1) u(2) consider "t \<in> set pre" | "t = u" | "t \<in> set post" by auto
    then show ?thesis
    proof cases
      case 1
      then have "tuple_lt (parse_version lim t) (parse_version lim u) = Inr True"
        using u(3) by blast
      then show ?thesis by (auto simp: key_lt_tags)
    next
      case 2
      then show ?thesis by (simp add: key_lt_tags)
    next
      case 3
      then show ?thesis using u(4) by blast
    qed
  qed
  have "parse_version lim u = fallback u"
  proof (rule ccontr)
    assume "parse_version lim u \<noteq> fallback u"
    then obtain ns where "parse_version lim u = map PInt ns"
      using parse_version_cases [of lim u] by blast
    with nl assms(2) show False by (simp add: tuple_lt_int_fallback)
  qed
  with u(1) mem show ?thesis by blast
qed

lemma ex_release:
  "get_latest_tag lim [''1.2'', ''RELEASE.2023-12-23T07-19-11Z''] c =
     Inr (Some ''RELEASE.2023-12-23T07-19-11Z'')"
proof -
  have "remove_prefix ''1.2'' = ''1.2''" by code_simp
  moreover have "version_parts ''1.2'' = Some [''1'', ''2'']" by code_simp
  moreover have "list_all is_digit ''1'' \<and> list_all is_digit ''2''" by code_simp
  ultimately have a: "parse_version lim ''1.2'' = map PInt [1, 2]"
    by (simp add: parse_version_parts py_int_short digit_val_def ord_def)
  have "\<not> has_numeric_run (remove_prefix ''RELEASE.2023-12-23T07-19-11Z'')" by code_simp
  then have b: "parse_version lim ''RELEASE.2023-12-23T07-19-11Z'' =
      fallback ''RELEASE.2023-12-23T07-19-11Z''"
    by (simp add: parse_version_fallback_iff)
  show ?thesis
    by (simp add: get_latest_tag_def sorted_reverse_def a b tuple_lt_int_fallback
        del: list.map)
qed

text \<open>
  Claim C1. A tag gets the fallback key exactly when, after the prefix is stripped, it has
  no leading numeric run or the conversion of a segment fails. A fallback key is greater
  than every integer key, and two fallback keys compare as their tags do. So when some tag
  of a list has a fallback key, the latest tag has one; for the tags \<^verbatim>\<open>"1.2"\<close> and
  \<^verbatim>\<open>"RELEASE.2023-12-23T07-19-11Z"\<close> the latest is the second.
\<close>

theorem fallback_ranks_highest:
  "(parse_version lim tag = fallback tag) =
     (\<not> has_numeric_run (remove_prefix tag) \<or>
      (\<exists>parts e. version_parts (remove_prefix tag) = Some parts \<and> py_ints lim parts = Inl e))
   \<and> tuple_lt (map PInt ns) (fallback s) = Inr True
   \<and> tuple_lt (fallback s) (map PInt ns) = Inr False
   \<and> tuple_lt (fallback s) (fallback s') = Inr (str_lt s s')
   \<and> ((\<exists>t\<in>set tags. parse_version lim t = fallback t) \<longrightarrow>
        (\<exists>u. get_latest_tag lim tags c = Inr (Some u) \<and> u \<in> set tags \<and>
             parse_version lim u = fallback u))
   \<and> get_latest_tag lim [''1.2'', ''RELEASE.2023-12-23T07-19-11Z''] c =
        Inr (Some ''RELEASE.2023-12-23T07-19-11Z'')"
  using parse_version_fallback_iff [of lim tag] tuple_lt_int_fallback [of ns s]
    tuple_lt_fallback_int [of s ns] tuple_lt_fallbacks [of s s'] latest_is_fallback [of _ tags lim c]
    ex_release [of lim c]
  by blast

text \<open>Among two versions and two names, the latest tag is the greater name.\<close>

theorem fallback_ranks_highest_witness:
  "(\<exists>t\<in>set [''2.0'', ''latest'', ''10.1'', ''edge'']. parse_version 4300 t = fallback t) \<and>
   (\<exists>u. get_latest_tag 4300 [''2.0'', ''latest'', ''10.1'', ''edge''] ''2.0'' = Inr (Some u) \<and>
        u \<in> set [''2.0'', ''latest'', ''10.1'', ''edge''] \<and> parse_version 4300 u = fallback u) \<and>
   get_latest_tag 4300 [''2.0'', ''latest'', ''10.1'', ''edge''] ''2.0'' = Inr (Some ''latest'')"
proof -
  let ?tags = "[''2.0'', ''latest'', ''10.1'', ''edge'']"
  have "parse_version 4300 ''latest'' = fallback ''latest''" by code_simp
  then have h: "\<exists>t\<in>set ?tags. parse_version 4300 t = fallback t" by simp
  have g: "get_latest_tag 4300 ?tags ''2.0'' = Inr (Some ''latest'')" by code_simp
  from fallback_ranks_highest [of 4300 "''latest''" "[]" "''a''" "''b''" ?tags "''2.0''"] h g
  show ?thesis by blast
qed

section \<open>The tags of an enumeration\<close>

lemma split_on_nonempty: "split_on p s \<noteq> []"
  by (induction s) (auto split: list.splits)

lemma split_on_snoc:
  "split_on p (s @ [c]) =
     (if p c then split_on p s @ [[]]
      else butlast (split_on p s) @ [last (split_on p s) @ [c]])"
proof (induction s)
  case Nil
  then show ?case by simp
next
  case (Cons a s)
  obtain w ws where w: "split_on p s = w # ws"
    using split_on_nonempty [of p s] by (cases "split_on p s") auto
  obtain v vs where v: "split_on p (s @ [c]) = v # vs"
    using split_on_nonempty [of p "s @ [c]"] by (cases "split_on p (s @ [c])") auto
  show ?case
  proof (cases "p a")
    case True
    then show ?thesis using Cons w by (simp add: butlast_append)
  next
    case False
    then show ?thesis using Cons w v by (cases ws) (auto split: if_splits)
  qed
qed

lemma strip_Cons_space: "is_space c \<Longrightarrow> strip (c # w) = strip w"
  by (simp add: strip_def)

lemma strip_snoc_space: "is_space c \<Longrightarrow> strip (w @ [c]) = strip w"
proof (cases "\<forall>x\<in>set w. is_space x")
  case True
  assume c: "is_space c"
  from True have a: "dropWhile is_space w = []" by (simp add: dropWhile_eq_Nil_conv)
  from True c have b: "dropWhile is_space (w @ [c]) = []"
    by (simp only: dropWhile_eq_Nil_conv) simp
  show ?thesis unfolding strip_def a b by simp
next
  case False
  assume c: "is_space c"
  from False obtain x where "x \<in> set w" "\<not> is_space x" by blast
  then have "dropWhile is_space (w @ [c]) = dropWhile is_space w @ [c]"
    by (rule dropWhile_append1)
  with c show ?thesis by (simp add: strip_def)
qed

lemma tags_Cons_space:
  assumes "is_space c"
  shows "spec_tag_list (c # s) = spec_tag_list s"
proof -
  obtain w ws where w: "split_on (\<lambda>c. c = newline) s = w # ws"
    using split_on_nonempty [of _ s] by (cases "split_on (\<lambda>c. c = newline) s") auto
  have "strip [] = []" by (simp add: strip_def)
  then show ?thesis using assms w
    by (simp add: spec_tag_list_def strip_Cons_space)
qed

lemma tags_snoc_space:
  assumes "is_space c"
  shows "spec_tag_list (s @ [c]) = spec_tag_list s"
proof -
  let ?xs = "split_on (\<lambda>c. c = newline) s"
  have e: "strip [] = []" by (simp add: strip_def)
  have x: "?xs = butlast ?xs @ [last ?xs]"
    using split_on_nonempty [of _ s] by simp
  have "spec_tag_list s =
      filter (\<lambda>line. line \<noteq> []) (map strip (butlast ?xs @ [last ?xs]))"
    unfolding spec_tag_list_def using x by simp
  then show ?thesis using assms e
    by (simp add: spec_tag_list_def split_on_snoc strip_snoc_space)
qed

lemma tags_dropWhile: "spec_tag_list (dropWhile is_space s) = spec_tag_list s"
  by (induction s) (simp_all add: tags_Cons_space)

lemma tags_rev_dropWhile: "spec_tag_list (rev (dropWhile is_space (rev s))) = spec_tag_list s"
  by (induction s rule: rev_induct) (simp_all add: tags_snoc_space)

lemma tags_strip: "spec_tag_list (strip s) = spec_tag_list s"
  by (simp add: strip_def tags_rev_dropWhile tags_dropWhile)

lemma runner_tags:
  "map strip (filter (\<lambda>tag. strip tag \<noteq> []) (split_on (\<lambda>c. c = newline) (strip out))) =
     spec_tag_list out"
proof -
  have "map strip (filter (\<lambda>tag. strip tag \<noteq> []) xs) =
          filter (\<lambda>line. line \<noteq> []) (map strip xs)" for xs
    by (induction xs) simp_all
  then show ?thesis
    using tags_strip [of out] by (simp add: spec_tag_list_def)
qed

lemma run_skopeo_command_eq:
  "run_skopeo_command run command timeout =
     (case run command timeout of
        Inl e \<Rightarrow> Inr None
      | Inr result \<Rightarrow>
          if returncode result \<noteq> 0 then Inr None
          else Inr (Some (spec_tag_list (stdout result))))"
  by (simp add: run_skopeo_command_def runner_tags split: sum.splits)

lemma tags_nonempty: "[] \<notin> set (spec_tag_list out)"
  by (simp add: spec_tag_list_def)

lemma latest_member:
  "tags \<noteq> [] \<Longrightarrow> \<exists>t. get_latest_tag lim tags c = Inr (Some t) \<and> t \<in> set tags"
  using latest_first_max [of tags lim c] by auto

text \<open>
  Claim C6. \<^verbatim>\<open>run_skopeo_command\<close> always returns and never raises. It returns \<^verbatim>\<open>None\<close>
  when the process ends with a status other than 0, when \<^verbatim>\<open>subprocess.run\<close> raises
  \<^verbatim>\<open>TimeoutExpired\<close>, and when it raises any other exception. When the status is 0 it
  returns the non-empty trimmed lines of the standard output, in their order (none for
  an empty output).
\<close>

theorem runner_signals_failure:
  "(\<exists>r. run_skopeo_command run command timeout = Inr r)
   \<and> (run command timeout = Inr result \<and> returncode result \<noteq> 0 \<longrightarrow>
        run_skopeo_command run command timeout = Inr None)
   \<and> (run command timeout = Inl TimeoutExpired \<longrightarrow>
        run_skopeo_command run command timeout = Inr None)
   \<and> (run command timeout = Inl e \<longrightarrow> run_skopeo_command run command timeout = Inr None)
   \<and> (run command timeout = Inr result \<and> returncode result = 0 \<longrightarrow>
        run_skopeo_command run command timeout = Inr (Some (spec_tag_list (stdout result))))
   \<and> spec_tag_list [] = []"
  by (auto simp: run_skopeo_command_eq spec_tag_list_def strip_def split: sum.splits)


text \<open>An output of three lines, one of them blank; a status 1; a timeout; another fault.\<close>

theorem runner_signals_failure_witness:
  "run_skopeo_command
      (\<lambda>c t. Inr \<lparr>returncode = 0,
         stdout = '' 1.2'' @ [newline] @ ''  '' @ [newline] @ ''1.3 '' @ [newline]\<rparr>)
      ''skopeo list-tags docker://x'' 30 = Inr (Some [''1.2'', ''1.3''])
   \<and> run_skopeo_command (\<lambda>c t. Inr \<lparr>returncode = 1, stdout = ''1.2''\<rparr>)
        ''skopeo list-tags docker://x'' 30 = Inr None
   \<and> run_skopeo_command (\<lambda>c t. Inl TimeoutExpired) ''skopeo list-tags docker://x'' 30 = Inr None
   \<and> run_skopeo_command (\<lambda>c t. Inl OtherException) ''skopeo list-tags docker://x'' 30 = Inr None"
proof -
  let ?out = "'' 1.2'' @ [newline] @ ''  '' @ [newline] @ ''1.3 '' @ [newline]"
  let ?ok = "\<lparr>returncode = 0, stdout = ?out\<rparr>"
  let ?bad = "\<lparr>returncode = 1, stdout = ''1.2''\<rparr>"
  let ?c = "''skopeo list-tags docker://x''"
  have t: "spec_tag_list ?out = [''1.2'', ''1.3'']" by code_simp
  have a: "run_skopeo_command (\<lambda>c t. Inr ?ok) ?c 30 = Inr (Some (spec_tag_list ?out))"
    using runner_signals_failure [of "\<lambda>c t. Inr ?ok" ?c 30 ?ok ValueError] by simp
  have b: "run_skopeo_command (\<lambda>c t. Inr ?bad) ?c 30 = Inr None"
    using runner_signals_failure [of "\<lambda>c t. Inr ?bad" ?c 30 ?bad ValueError] by simp
  have c: "run_skopeo_command (\<lambda>c t. Inl TimeoutExpired) ?c 30 = Inr None"
    using runner_signals_failure [of "\<lambda>c t. Inl TimeoutExpired" ?c 30 ?ok TimeoutExpired] by simp
  have d: "run_skopeo_command (\<lambda>c t. Inl OtherException) ?c 30 = Inr None"
    using runner_signals_failure [of "\<lambda>c t. Inl OtherException" ?c 30 ?ok OtherException] by simp
  from a b c d t show ?thesis by simp
qed

section \<open>The record of a check\<close>

lemma check_item_failed:
  "run_skopeo_command run (skopeo_command item) timeout = Inr None \<Longrightarrow>
   check_item lim run timeout item =
     Inr (tag_source.extend item \<lparr>latest_value = None, status = ''error'', all_tags = []\<rparr>)"
  by (simp add: check_item_def)

lemma check_item_empty:
  "run_skopeo_command run (skopeo_command item) timeout = Inr (Some []) \<Longrightarrow>
   check_item lim run timeout item =
     Inr (tag_source.extend item \<lparr>latest_value = None, status = ''unknown'', all_tags = []\<rparr>)"
  by (simp add: check_item_def get_latest_tag_def)

lemma check_item_tags:
  assumes "run_skopeo_command run (skopeo_command item) timeout = Inr (Some tags)" "tags \<noteq> []"
  shows "\<exists>t. get_latest_tag lim tags (current_value item) = Inr (Some t) \<and> t \<in> set tags \<and>
           t \<noteq> [] \<and>
           check_item lim run timeout item =
             Inr (tag_source.extend item
               \<lparr>latest_value = Some t, status = compare_versions (current_value item) t,
                all_tags = slice_from (- 10) tags\<rparr>)"
proof -
  from latest_member [OF assms(2), of lim "current_value item"]
  obtain t where t: "get_latest_tag lim tags (current_value item) = Inr (Some t)" "t \<in> set tags"
    by blast
  have "[] \<notin> set tags"
    using assms(1) tags_nonempty
    by (auto simp: run_skopeo_command_eq split: sum.splits if_splits)
  with t(2) have ne: "t \<noteq> []" by auto
  with t assms show ?thesis by (simp add: check_item_def)
qed

lemma runner_cases:
  "run_skopeo_command run command timeout = Inr None \<or>
   (\<exists>tags. run_skopeo_command run command timeout = Inr (Some tags))"
  by (auto simp: run_skopeo_command_eq split: sum.splits)

text \<open>
  Claim C3. Every check returns a record, and its status is one of the four texts. It is
  \<^verbatim>\<open>error\<close> exactly when the enumeration failed, and then there is no latest tag;
  \<^verbatim>\<open>unknown\<close> exactly when the enumeration gave no tags; \<^verbatim>\<open>up-to-date\<close> exactly when there is
  a latest tag and it is the very text of the current value; \<^verbatim>\<open>update-available\<close> exactly
  when there is a latest tag and it is another text. The latest tag of the record is the
  one that \<^verbatim>\<open>get_latest_tag\<close> selects from the enumerated tags.
\<close>

theorem status_classification:
  "\<exists>r. check_item lim run timeout item = Inr r
     \<and> status r \<in> {''error'', ''unknown'', ''up-to-date'', ''update-available''}
     \<and> (status r = ''error'') =
         (run_skopeo_command run (skopeo_command item) timeout = Inr None)
     \<and> (status r = ''error'' \<longrightarrow> latest_value r = None)
     \<and> (status r = ''unknown'') =
         (run_skopeo_command run (skopeo_command item) timeout = Inr (Some []))
     \<and> (status r = ''up-to-date'') = (latest_value r = Some (current_value item))
     \<and> (status r = ''update-available'') =
         (\<exists>t. latest_value r = Some t \<and> t \<noteq> current_value item)
     \<and> (\<forall>t. (latest_value r = Some t) =
           (\<exists>tags. run_skopeo_command run (skopeo_command item) timeout = Inr (Some tags) \<and>
              get_latest_tag lim tags (current_value item) = Inr (Some t)))"
proof -
  let ?run = "run_skopeo_command run (skopeo_command item) timeout"
  consider "?run = Inr None" | "?run = Inr (Some [])"
    | tags where "?run = Inr (Some tags)" "tags \<noteq> []"
    using runner_cases [of run "skopeo_command item" timeout] by (cases "?run") auto
  then show ?thesis
  proof cases
    case 1
    then show ?thesis
      by (simp add: check_item_failed tag_source.defs)
  next
    case 2
    then show ?thesis
      by (simp add: check_item_empty tag_source.defs get_latest_tag_def)
  next
    case 3
    from check_item_tags [OF 3, of lim]
    obtain t where t: "get_latest_tag lim tags (current_value item) = Inr (Some t)" "t \<noteq> []"
      "check_item lim run timeout item =
             Inr (tag_source.extend item
               \<lparr>latest_value = Some t, status = compare_versions (current_value item) t,
                all_tags = slice_from (- 10) tags\<rparr>)"
      by blast
    show ?thesis
      using 3 t by (auto simp: tag_source.defs compare_versions_def)
  qed
qed


text \<open>
  The current value \<^verbatim>\<open>"v1.2"\<close> against the only tag \<^verbatim>\<open>"1.2"\<close>, which has the same key: an
  update is available. A timeout: an error and no latest tag.
\<close>

theorem status_classification_witness:
  "(\<exists>r. check_item 4300 (\<lambda>c t. Inr \<lparr>returncode = 0, stdout = ''1.2''\<rparr>) 30
          \<lparr>variable = ''app_image_tag'', current_value = ''v1.2'',
           skopeo_command = ''skopeo list-tags docker://x'', line_number = 1\<rparr> = Inr r
        \<and> status r = ''update-available''
        \<and> (\<exists>t. latest_value r = Some t \<and> t \<noteq> ''v1.2''))
   \<and> (\<exists>r. check_item 4300 (\<lambda>c t. Inl TimeoutExpired) 30
          \<lparr>variable = ''app_image_tag'', current_value = ''v1.2'',
           skopeo_command = ''skopeo list-tags docker://x'', line_number = 1\<rparr> = Inr r
        \<and> status r = ''error'' \<and> latest_value r = None)"
proof -
  let ?item = "\<lparr>variable = ''app_image_tag'', current_value = ''v1.2'',
           skopeo_command = ''skopeo list-tags docker://x'', line_number = 1\<rparr>"
  let ?ok = "\<lambda>c t. Inr \<lparr>returncode = 0, stdout = ''1.2''\<rparr> :: exn + completed_process"
  let ?to = "\<lambda>c t. Inl TimeoutExpired :: exn + completed_process"
  have a: "map_sum id status (check_item 4300 ?ok 30 ?item) = Inr ''update-available''"
    by code_simp
  have b: "map_sum id status (check_item 4300 ?to 30 ?item) = Inr ''error''"
    by code_simp
  from status_classification [of 4300 ?ok 30 ?item]
  obtain r where r: "check_item 4300 ?ok 30 ?item = Inr r"
    "(status r = ''update-available'') =
         (\<exists>t. latest_value r = Some t \<and> t \<noteq> current_value ?item)"
    by blast
  from a r(1) have "status r = ''update-available''" by simp
  with r have 1: "\<exists>r. check_item 4300 ?ok 30 ?item = Inr r \<and> status r = ''update-available''
        \<and> (\<exists>t. latest_value r = Some t \<and> t \<noteq> ''v1.2'')"
    by auto
  from status_classification [of 4300 ?to 30 ?item]
  obtain q where q: "check_item 4300 ?to 30 ?item = Inr q"
    "status q = ''error'' \<longrightarrow> latest_value q = None"
    by blast
  from b q(1) have "status q = ''error''" by simp
  with q have 2: "\<exists>r. check_item 4300 ?to 30 ?item = Inr r \<and> status r = ''error''
        \<and> latest_value r = None"
    by auto
  from 1 2 show ?thesis by blast
qed

lemma slice_last_ten: "slice_from (- 10) xs = drop (length xs - 10) xs"
proof -
  have "nat (max (int (length xs) - 10) 0) = length xs - 10" by simp
  then show ?thesis by (simp add: slice_from_def Let_def)
qed

text \<open>
  Claim C8. After a successful enumeration the field \<^verbatim>\<open>all_tags\<close> of the record holds the
  last ten tags of the enumeration in their order: a suffix of the tag list, of length ten
  or of the length of the list when that is smaller, and the whole list when it has at most ten tags.
\<close>

theorem all_tags_last_ten:
  "run_skopeo_command run (skopeo_command item) timeout = Inr (Some tags) \<longrightarrow>
     (\<exists>r. check_item lim run timeout item = Inr r
        \<and> all_tags r = drop (length tags - 10) tags
        \<and> length (all_tags r) = min 10 (length tags)
        \<and> (\<exists>pre. tags = pre @ all_tags r)
        \<and> (length tags \<le> 10 \<longrightarrow> all_tags r = tags))"
proof
  assume run: "run_skopeo_command run (skopeo_command item) timeout = Inr (Some tags)"
  have pre: "\<exists>pre. tags = pre @ drop (length tags - 10) tags"
    by (metis append_take_drop_id)
  show "\<exists>r. check_item lim run timeout item = Inr r
        \<and> all_tags r = drop (length tags - 10) tags
        \<and> length (all_tags r) = min 10 (length tags)
        \<and> (\<exists>pre. tags = pre @ all_tags r)
        \<and> (length tags \<le> 10 \<longrightarrow> all_tags r = tags)"
  proof (cases "tags = []")
    case True
    with run show ?thesis by (simp add: check_item_empty tag_source.defs)
  next
    case False
    from check_item_tags [OF run False, of lim]
    obtain t where "check_item lim run timeout item =
             Inr (tag_source.extend item
               \<lparr>latest_value = Some t, status = compare_versions (current_value item) t,
                all_tags = slice_from (- 10) tags\<rparr>)"
      by blast
    then show ?thesis using pre
      by (auto simp: tag_source.defs slice_last_ten)
  qed
qed

text \<open>
  Eleven tags with the greatest version first: the field holds the other ten, and the
  latest tag is not among them.
\<close>

theorem all_tags_last_ten_witness:
  "run_skopeo_command
      (\<lambda>c t. Inr \<lparr>returncode = 0,
         stdout = concat (map (\<lambda>tag. tag @ [newline])
           [''2.10'', ''2.0'', ''2.1'', ''2.2'', ''2.3'', ''2.4'', ''2.5'', ''2.6'', ''2.7'',
            ''2.8'', ''2.9''])\<rparr>)
      ''skopeo list-tags docker://x'' 30 =
      Inr (Some [''2.10'', ''2.0'', ''2.1'', ''2.2'', ''2.3'', ''2.4'', ''2.5'', ''2.6'', ''2.7'',
                 ''2.8'', ''2.9''])
   \<and> (\<exists>r. check_item 4300
          (\<lambda>c t. Inr \<lparr>returncode = 0,
             stdout = concat (map (\<lambda>tag. tag @ [newline])
               [''2.10'', ''2.0'', ''2.1'', ''2.2'', ''2.3'', ''2.4'', ''2.5'', ''2.6'', ''2.7'',
                ''2.8'', ''2.9''])\<rparr>)
          30 \<lparr>variable = ''app_image_tag'', current_value = ''2.9'',
               skopeo_command = ''skopeo list-tags docker://x'', line_number = 1\<rparr> = Inr r
        \<and> all_tags r = [''2.0'', ''2.1'', ''2.2'', ''2.3'', ''2.4'', ''2.5'', ''2.6'', ''2.7'',
                        ''2.8'', ''2.9'']
        \<and> latest_value r = Some ''2.10'')
   \<and> (\<exists>r. check_item 4300
          (\<lambda>c t. Inr \<lparr>returncode = 0, stdout = ''2.0'' @ [newline] @ ''2.1''\<rparr>)
          30 \<lparr>variable = ''app_image_tag'', current_value = ''2.9'',
               skopeo_command = ''skopeo list-tags docker://x'', line_number = 1\<rparr> = Inr r
        \<and> all_tags r = [''2.0'', ''2.1''])"
proof -
  let ?tags = "[''2.10'', ''2.0'', ''2.1'', ''2.2'', ''2.3'', ''2.4'', ''2.5'', ''2.6'', ''2.7'',
                ''2.8'', ''2.9'']"
  let ?run = "\<lambda>c t. Inr \<lparr>returncode = 0,
         stdout = concat (map (\<lambda>tag. tag @ [newline]) ?tags)\<rparr> :: exn + completed_process"
  let ?few = "\<lambda>c t. Inr \<lparr>returncode = 0, stdout = ''2.0'' @ [newline] @ ''2.1''\<rparr>
         :: exn + completed_process"
  let ?item = "\<lparr>variable = ''app_image_tag'', current_value = ''2.9'',
               skopeo_command = ''skopeo list-tags docker://x'', line_number = 1\<rparr>"
  have a: "run_skopeo_command ?run (skopeo_command ?item) 30 = Inr (Some ?tags)"
    by code_simp
  have b: "map_sum id latest_value (check_item 4300 ?run 30 ?item) = Inr (Some ''2.10'')"
    by code_simp
  have c: "run_skopeo_command ?few (skopeo_command ?item) 30 = Inr (Some [''2.0'', ''2.1''])"
    by code_simp
  from all_tags_last_ten [of ?run ?item 30 ?tags 4300] a
  obtain r where r: "check_item 4300 ?run 30 ?item = Inr r"
    "all_tags r = drop (length ?tags - 10) ?tags"
    by blast
  from b r(1) have "latest_value r = Some ''2.10''" by simp
  moreover from r(2) have "all_tags r =
      [''2.0'', ''2.1'', ''2.2'', ''2.3'', ''2.4'', ''2.5'', ''2.6'', ''2.7'', ''2.8'', ''2.9'']"
    by simp
  ultimately have 1: "\<exists>r. check_item 4300 ?run 30 ?item = Inr r
        \<and> all_tags r = [''2.0'', ''2.1'', ''2.2'', ''2.3'', ''2.4'', ''2.5'', ''2.6'', ''2.7'',
                        ''2.8'', ''2.9'']
        \<and> latest_value r = Some ''2.10''"
    using r(1) by blast
  from all_tags_last_ten [of ?few ?item 30 "[''2.0'', ''2.1'']" 4300] c
  obtain q where q: "check_item 4300 ?few 30 ?item = Inr q"
    "length [''2.0'', ''2.1''] \<le> 10 \<longrightarrow> all_tags q = [''2.0'', ''2.1'']"
    by blast
  then have 2: "\<exists>r. check_item 4300 ?few 30 ?item = Inr r \<and> all_tags r = [''2.0'', ''2.1'']"
    by simp
  from a 1 2 show ?thesis by simp
qed

section \<open>The pattern of a declaration line\<close>

lemma in_ms_Lit: "y \<in> set (ms (Lit l) (s, g)) \<longleftrightarrow> s = l @ fst y \<and> snd y = g"
proof (cases y)
  case (Pair s' g')
  have "take (length l) s = l \<and> s' = drop (length l) s \<longleftrightarrow> s = l @ s'"
    by (metis append_eq_conv_conj)
  then show ?thesis using Pair by (auto simp: startswith_def)
qed

lemma in_ms_Cls: "y \<in> set (ms (Cls p) (s, g)) \<longleftrightarrow> (\<exists>c. p c \<and> s = c # fst y) \<and> snd y = g"
  by (cases y; cases s) auto

lemma in_ms_Seq: "y \<in> set (ms (Seq a b) x) \<longleftrightarrow> (\<exists>z\<in>set (ms a x). y \<in> set (ms b z))"
  by auto

lemma in_ms_Opt: "y \<in> set (ms (Opt a) x) \<longleftrightarrow> y \<in> set (ms a x) \<or> y = x"
  by auto

lemma in_ms_Eos: "y \<in> set (ms Eos x) \<longleftrightarrow> y = x \<and> (fst x = [] \<or> fst x = [newline])"
  by (cases "fst x = [] \<or> fst x = [newline]") simp_all

lemma in_ms_Grp:
  "y \<in> set (ms (Grp n a) (s, g)) \<longleftrightarrow>
     (\<exists>g'. (fst y, g') \<in> set (ms a (s, g)) \<and>
        snd y = g'(n \<mapsto> take (length s - length (fst y)) s))"
  by (cases y) (force simp: image_iff)

lemma in_star_iter_Cls:
  "length s \<le> n \<Longrightarrow>
   y \<in> set (star_iter n (ms (Cls p)) (s, g)) \<longleftrightarrow>
     (\<exists>w. list_all p w \<and> s = w @ fst y) \<and> snd y = g"
proof (induction n arbitrary: s)
  case 0
  then show ?case by (cases y) auto
next
  case (Suc n)
  show ?case
  proof (cases s)
    case Nil
    then show ?thesis by (cases y) auto
  next
    case (Cons c s')
    with Suc.prems have len: "length s' \<le> n" by simp
    show ?thesis
    proof (cases "p c")
      case True
      have "y \<in> set (star_iter (Suc n) (ms (Cls p)) (s, g)) \<longleftrightarrow>
              y \<in> set (star_iter n (ms (Cls p)) (s', g)) \<or> y = (s, g)"
        using Cons True by auto
      also have "\<dots> \<longleftrightarrow> ((\<exists>w. list_all p w \<and> s' = w @ fst y) \<and> snd y = g) \<or> y = (s, g)"
        using Suc.IH [OF len] by blast
      also have "\<dots> \<longleftrightarrow> (\<exists>w. list_all p w \<and> s = w @ fst y) \<and> snd y = g"
      proof
        assume "((\<exists>w. list_all p w \<and> s' = w @ fst y) \<and> snd y = g) \<or> y = (s, g)"
        then show "(\<exists>w. list_all p w \<and> s = w @ fst y) \<and> snd y = g"
        proof
          assume "(\<exists>w. list_all p w \<and> s' = w @ fst y) \<and> snd y = g"
          then obtain w where "list_all p w" "s' = w @ fst y" "snd y = g" by blast
          then have "list_all p (c # w) \<and> s = (c # w) @ fst y" using Cons True by simp
          with \<open>snd y = g\<close> show ?thesis by blast
        next
          assume "y = (s, g)"
          then have "list_all p [] \<and> s = [] @ fst y" by simp
          with \<open>y = (s, g)\<close> show ?thesis by (metis snd_conv)
        qed
      next
        assume "(\<exists>w. list_all p w \<and> s = w @ fst y) \<and> snd y = g"
        then obtain w where w: "list_all p w" "s = w @ fst y" "snd y = g" by blast
        show "((\<exists>w. list_all p w \<and> s' = w @ fst y) \<and> snd y = g) \<or> y = (s, g)"
        proof (cases w)
          case Nil
          with w show ?thesis by (cases y) auto
        next
          case (Cons d w')
          with w \<open>s = c # s'\<close> have "list_all p w' \<and> s' = w' @ fst y" by simp
          with w(3) show ?thesis by blast
        qed
      qed
      finally show ?thesis .
    next
      case False
      have "y \<in> set (star_iter (Suc n) (ms (Cls p)) (s, g)) \<longleftrightarrow> y = (s, g)"
        using Cons False by auto
      also have "\<dots> \<longleftrightarrow> (\<exists>w. list_all p w \<and> s = w @ fst y) \<and> snd y = g"
      proof
        assume "y = (s, g)"
        then have "list_all p [] \<and> s = [] @ fst y" by simp
        with \<open>y = (s, g)\<close> show "(\<exists>w. list_all p w \<and> s = w @ fst y) \<and> snd y = g"
          by (metis snd_conv)
      next
        assume "(\<exists>w. list_all p w \<and> s = w @ fst y) \<and> snd y = g"
        then obtain w where w: "list_all p w" "s = w @ fst y" "snd y = g" by blast
        have "w = []"
        proof (cases w)
          case (Cons d w')
          with w Cons \<open>s = c # s'\<close> False show ?thesis by simp
        qed simp
        with w show "y = (s, g)" by (cases y) simp
      qed
      finally show ?thesis .
    qed
  qed
qed

lemma in_ms_Star_Cls:
  "y \<in> set (ms (Star (Cls p)) (s, g)) \<longleftrightarrow> (\<exists>w. list_all p w \<and> s = w @ fst y) \<and> snd y = g"
  by (simp add: in_star_iter_Cls)

lemma in_ms_Plus_Cls:
  "y \<in> set (ms (Plus (Cls p)) (s, g)) \<longleftrightarrow>
     (\<exists>w. w \<noteq> [] \<and> list_all p w \<and> s = w @ fst y) \<and> snd y = g"
proof (cases s)
  case Nil
  then show ?thesis by auto
next
  case (Cons c s')
  show ?thesis
  proof (cases "p c")
    case True
    then have "y \<in> set (ms (Plus (Cls p)) (s, g)) \<longleftrightarrow>
        y \<in> set (star_iter (length s') (ms (Cls p)) (s', g))"
      using Cons by simp
    also have "\<dots> \<longleftrightarrow> (\<exists>w. list_all p w \<and> s' = w @ fst y) \<and> snd y = g"
      by (simp add: in_star_iter_Cls)
    also have "\<dots> \<longleftrightarrow> (\<exists>w. w \<noteq> [] \<and> list_all p w \<and> s = w @ fst y) \<and> snd y = g"
    proof -
      have "(\<exists>w. list_all p w \<and> s' = w @ fst y) \<longleftrightarrow>
            (\<exists>w. w \<noteq> [] \<and> list_all p w \<and> s = w @ fst y)"
      proof
        assume "\<exists>w. list_all p w \<and> s' = w @ fst y"
        then obtain w where "list_all p w" "s' = w @ fst y" by blast
        then have "c # w \<noteq> [] \<and> list_all p (c # w) \<and> s = (c # w) @ fst y"
          using Cons True by simp
        then show "\<exists>w. w \<noteq> [] \<and> list_all p w \<and> s = w @ fst y" by blast
      next
        assume "\<exists>w. w \<noteq> [] \<and> list_all p w \<and> s = w @ fst y"
        then obtain w where w: "w \<noteq> []" "list_all p w" "s = w @ fst y" by blast
        then obtain d w' where "w = d # w'" by (cases w) auto
        with w Cons have "list_all p w' \<and> s' = w' @ fst y" by simp
        then show "\<exists>w. list_all p w \<and> s' = w @ fst y" by blast
      qed
      then show ?thesis by simp
    qed
    finally show ?thesis .
  next
    case False
    have "\<not> (\<exists>w. w \<noteq> [] \<and> list_all p w \<and> s = w @ fst y)"
    proof
      assume "\<exists>w. w \<noteq> [] \<and> list_all p w \<and> s = w @ fst y"
      then obtain w where w: "w \<noteq> []" "list_all p w" "s = w @ fst y" by blast
      then obtain d w' where "w = d # w'" by (cases w) auto
      with w Cons False show False by simp
    qed
    then show ?thesis using Cons False by simp
  qed
qed

lemma sem_ofI:
  "(\<And>s g y. y \<in> set (ms r (s, g)) \<longleftrightarrow> (\<exists>w. s = w @ fst y \<and> R w (fst y) g (snd y))) \<Longrightarrow>
   sem_of r R"
  by (simp add: sem_of_def)

lemma sem_ofD:
  "sem_of r R \<Longrightarrow> y \<in> set (ms r (s, g)) \<longleftrightarrow> (\<exists>w. s = w @ fst y \<and> R w (fst y) g (snd y))"
  unfolding sem_of_def by blast

lemma sem_of_cong:
  "sem_of r R \<Longrightarrow> (\<And>w t g g'. R w t g g' = R' w t g g') \<Longrightarrow> sem_of r R'"
  by (simp add: sem_of_def)

lemma sem_Lit: "sem_of (Lit l) (\<lambda>w t g g'. w = l \<and> g' = g)"
  by (rule sem_ofI) (unfold in_ms_Lit, blast)

lemma sem_Star_Cls: "sem_of (Star (Cls p)) (\<lambda>w t g g'. list_all p w \<and> g' = g)"
  by (rule sem_ofI) (unfold in_ms_Star_Cls, blast)

lemma sem_Plus_Cls: "sem_of (Plus (Cls p)) (\<lambda>w t g g'. w \<noteq> [] \<and> list_all p w \<and> g' = g)"
  by (rule sem_ofI) (unfold in_ms_Plus_Cls, blast)

lemma sem_Opt_Cls:
  "sem_of (Opt (Cls p)) (\<lambda>w t g g'. length w \<le> 1 \<and> list_all p w \<and> g' = g)"
proof (rule sem_ofI)
  fix s :: string and g :: groups and y :: mstate
  show "y \<in> set (ms (Opt (Cls p)) (s, g)) \<longleftrightarrow>
          (\<exists>w. s = w @ fst y \<and> length w \<le> 1 \<and> list_all p w \<and> snd y = g)"
  proof
    assume "y \<in> set (ms (Opt (Cls p)) (s, g))"
    then consider c where "p c" "s = c # fst y" "snd y = g" | "y = (s, g)"
      unfolding in_ms_Opt in_ms_Cls by blast
    then show "\<exists>w. s = w @ fst y \<and> length w \<le> 1 \<and> list_all p w \<and> snd y = g"
    proof cases
      case 1
      then have "s = [c] @ fst y \<and> length [c] \<le> 1 \<and> list_all p [c] \<and> snd y = g" by simp
      then show ?thesis by blast
    next
      case 2
      then have "s = [] @ fst y \<and> length ([] :: string) \<le> 1 \<and> list_all p [] \<and> snd y = g"
        by simp
      then show ?thesis by blast
    qed
  next
    assume "\<exists>w. s = w @ fst y \<and> length w \<le> 1 \<and> list_all p w \<and> snd y = g"
    then obtain w where w: "s = w @ fst y" "length w \<le> 1" "list_all p w" "snd y = g"
      by blast
    show "y \<in> set (ms (Opt (Cls p)) (s, g))"
    proof (cases w)
      case Nil
      with w show ?thesis unfolding in_ms_Opt by (cases y) simp
    next
      case (Cons c w')
      with w have "w' = []" by simp
      with w Cons show ?thesis unfolding in_ms_Opt in_ms_Cls by simp
    qed
  qed
qed

lemma sem_Eos: "sem_of Eos (\<lambda>w t g g'. w = [] \<and> (t = [] \<or> t = [newline]) \<and> g' = g)"
proof (rule sem_ofI)
  fix s :: string and g :: groups and y :: mstate
  show "y \<in> set (ms Eos (s, g)) \<longleftrightarrow>
     (\<exists>w. s = w @ fst y \<and> w = [] \<and> (fst y = [] \<or> fst y = [newline]) \<and> snd y = g)"
    unfolding in_ms_Eos by (cases y) auto
qed

lemma sem_Seq:
  assumes "sem_of a A" "sem_of b B"
  shows "sem_of (Seq a b) (\<lambda>w t g g'. \<exists>u v h. w = u @ v \<and> A u (v @ t) g h \<and> B v t h g')"
proof (rule sem_ofI)
  fix s :: string and g :: groups and y :: mstate
  show "y \<in> set (ms (Seq a b) (s, g)) \<longleftrightarrow>
     (\<exists>w. s = w @ fst y \<and> (\<exists>u v h. w = u @ v \<and> A u (v @ fst y) g h \<and> B v (fst y) h (snd y)))"
  proof
    assume "y \<in> set (ms (Seq a b) (s, g))"
    then obtain z where z: "z \<in> set (ms a (s, g))" "y \<in> set (ms b z)"
      unfolding in_ms_Seq by blast
    from z(1) obtain u where u: "s = u @ fst z" "A u (fst z) g (snd z)"
      using sem_ofD [OF assms(1)] by blast
    from z(2) obtain v where v: "fst z = v @ fst y" "B v (fst y) (snd z) (snd y)"
      using sem_ofD [OF assms(2), of y "fst z" "snd z"] by auto
    from u v have "s = (u @ v) @ fst y \<and> A u (v @ fst y) g (snd z) \<and> B v (fst y) (snd z) (snd y)"
      by simp
    then show "\<exists>w. s = w @ fst y \<and>
        (\<exists>u v h. w = u @ v \<and> A u (v @ fst y) g h \<and> B v (fst y) h (snd y))"
      by blast
  next
    assume "\<exists>w. s = w @ fst y \<and>
        (\<exists>u v h. w = u @ v \<and> A u (v @ fst y) g h \<and> B v (fst y) h (snd y))"
    then obtain u v h where uv: "s = (u @ v) @ fst y" "A u (v @ fst y) g h" "B v (fst y) h (snd y)"
      by blast
    have "(v @ fst y, h) \<in> set (ms a (s, g))"
      using sem_ofD [OF assms(1), of "(v @ fst y, h)" s g] uv by auto
    moreover have "y \<in> set (ms b (v @ fst y, h))"
      using sem_ofD [OF assms(2), of y "v @ fst y" h] uv by auto
    ultimately show "y \<in> set (ms (Seq a b) (s, g))"
      unfolding in_ms_Seq by blast
  qed
qed

lemma sem_Grp:
  assumes "sem_of a A"
  shows "sem_of (Grp n a) (\<lambda>w t g g'. \<exists>h. A w t g h \<and> g' = h(n \<mapsto> w))"
proof (rule sem_ofI)
  fix s :: string and g :: groups and y :: mstate
  have tk: "take (length (w @ fst y) - length (fst y)) (w @ fst y) = w" for w
    by simp
  show "y \<in> set (ms (Grp n a) (s, g)) \<longleftrightarrow>
     (\<exists>w. s = w @ fst y \<and> (\<exists>h. A w (fst y) g h \<and> snd y = h(n \<mapsto> w)))"
  proof
    assume "y \<in> set (ms (Grp n a) (s, g))"
    then obtain h where h: "(fst y, h) \<in> set (ms a (s, g))"
      "snd y = h(n \<mapsto> take (length s - length (fst y)) s)"
      unfolding in_ms_Grp by blast
    from h(1) obtain w where w: "s = w @ fst y" "A w (fst y) g h"
      using sem_ofD [OF assms, of "(fst y, h)" s g] by auto
    with h(2) tk [of w] have "snd y = h(n \<mapsto> w)" by simp
    with w show "\<exists>w. s = w @ fst y \<and> (\<exists>h. A w (fst y) g h \<and> snd y = h(n \<mapsto> w))"
      by blast
  next
    assume "\<exists>w. s = w @ fst y \<and> (\<exists>h. A w (fst y) g h \<and> snd y = h(n \<mapsto> w))"
    then obtain w h where w: "s = w @ fst y" "A w (fst y) g h" "snd y = h(n \<mapsto> w)"
      by blast
    have "(fst y, h) \<in> set (ms a (s, g))"
      using sem_ofD [OF assms, of "(fst y, h)" s g] w by auto
    moreover have "snd y = h(n \<mapsto> take (length s - length (fst y)) s)"
      using w tk [of w] by simp
    ultimately show "y \<in> set (ms (Grp n a) (s, g))"
      unfolding in_ms_Grp by blast
  qed
qed

text \<open>The group of the version pattern is made of digit runs, so \<open>py_int\<close> only sees runs of digits.\<close>

lemma digit_not_sep: "is_digit c \<Longrightarrow> \<not> is_sep c"
  by (auto simp: is_digit_def is_sep_def ord_def)

lemma split_on_none: "list_all (\<lambda>c. \<not> p c) ds \<Longrightarrow> split_on p ds = [ds]"
  by (induction ds) auto

lemma split_on_append_sep:
  "p c \<Longrightarrow> split_on p (w @ c # ds) = split_on p w @ split_on p ds"
proof (induction w)
  case Nil
  then show ?case by simp
next
  case (Cons a w)
  obtain v vs where "split_on p w = v # vs"
    using split_on_nonempty [of p w] by (cases "split_on p w") auto
  with Cons show ?case by (auto split: list.splits)
qed

lemma digit_runs_digits: "ds \<noteq> [] \<Longrightarrow> list_all is_digit ds \<Longrightarrow> digit_runs ds"
proof -
  assume a: "ds \<noteq> []" "list_all is_digit ds"
  then have "list_all (\<lambda>c. \<not> is_sep c) ds"
    using digit_not_sep by (auto simp: list_all_iff)
  then have "split_on is_sep ds = [ds]" by (rule split_on_none)
  with a show ?thesis by (simp add: digit_runs_def)
qed

lemma digit_runs_step:
  "digit_runs w \<Longrightarrow> is_sep c \<Longrightarrow> ds \<noteq> [] \<Longrightarrow> list_all is_digit ds \<Longrightarrow>
   digit_runs (w @ c # ds)"
  using digit_runs_digits [of ds] by (simp add: digit_runs_def split_on_append_sep)

lemma star_iter_invariant:
  assumes "\<And>x y. I x \<Longrightarrow> y \<in> set (f x) \<Longrightarrow> I y" "I x" "y \<in> set (star_iter n f x)"
  shows "I y"
  using assms(2,3)
proof (induction n arbitrary: x)
  case 0
  then show ?case by simp
next
  case (Suc n)
  from Suc.prems(2) consider "y = x"
    | z where "z \<in> set (f x)" "y \<in> set (star_iter n f z)"
    by auto
  then show ?case
  proof cases
    case 1
    with Suc.prems(1) show ?thesis by simp
  next
    case 2
    from assms(1) [OF Suc.prems(1) 2(1)] 2(2) show ?thesis by (rule Suc.IH)
  qed
qed

lemma in_ms_version_rx:
  assumes "y \<in> set (ms version_rx (s, g))"
  shows "\<exists>w. s = w @ fst y \<and> digit_runs w \<and> snd y = g(1 \<mapsto> w)"
proof -
  let ?body = "Seq (Cls is_sep) (Plus (Cls is_digit))"
  let ?I = "\<lambda>x. (\<exists>w. s = w @ fst x \<and> digit_runs w) \<and> snd x = g"
  from assms obtain g' where g': "(fst y, g') \<in> set (ms (Seq (Plus (Cls is_digit)) (Star ?body)) (s, g))"
    "snd y = g'(1 \<mapsto> take (length s - length (fst y)) s)"
    unfolding version_rx_def in_ms_Grp by blast
  from g'(1) obtain z where z: "z \<in> set (ms (Plus (Cls is_digit)) (s, g))"
    "(fst y, g') \<in> set (star_iter (length (fst z)) (ms ?body) z)"
    unfolding in_ms_Seq by auto
  from z(1) obtain ds where "ds \<noteq> []" "list_all is_digit ds" "s = ds @ fst z" "snd z = g"
    unfolding in_ms_Plus_Cls by blast
  then have iz: "?I z" using digit_runs_digits by blast
  have step: "?I b" if "?I a" "b \<in> set (ms ?body a)" for a b
  proof -
    from that(1) obtain w where w: "s = w @ fst a" "digit_runs w" "snd a = g" by blast
    from that(2) obtain m where m: "m \<in> set (ms (Cls is_sep) (fst a, snd a))"
      "b \<in> set (ms (Plus (Cls is_digit)) m)"
      unfolding in_ms_Seq by (simp only: prod.collapse) blast
    from m(1) obtain c where c: "is_sep c" "fst a = c # fst m" "snd m = snd a"
      unfolding in_ms_Cls by blast
    from m(2) obtain ds where ds: "ds \<noteq> []" "list_all is_digit ds" "fst m = ds @ fst b"
      "snd b = snd m"
      using in_ms_Plus_Cls [of b is_digit "fst m" "snd m"] by auto
    have "s = (w @ c # ds) @ fst b" using w(1) c(2) ds(3) by simp
    moreover have "digit_runs (w @ c # ds)" using w(2) c(1) ds(1,2) by (rule digit_runs_step)
    ultimately show ?thesis using ds(4) c(3) w(3) by auto
  qed
  have "?I (fst y, g')"
  proof (rule star_iter_invariant [where I = ?I and f = "ms ?body" and x = z])
    show "?I b" if "?I a" "b \<in> set (ms ?body a)" for a b
      using that by (rule step)
    show "?I z" by (rule iz)
    show "(fst y, g') \<in> set (star_iter (length (fst z)) (ms ?body) z)" by (rule z(2))
  qed
  then obtain w where w: "s = w @ fst y" "digit_runs w" "g' = g" by auto
  then have "take (length s - length (fst y)) s = w" by simp
  with w g'(2) have "s = w @ fst y \<and> digit_runs w \<and> snd y = g(1 \<mapsto> w)" by simp
  then show ?thesis by (rule exI)
qed

lemma version_rx_group:
  "re_match version_rx s = Some m \<Longrightarrow> \<exists>w. m 1 = Some w \<and> digit_runs w"
proof -
  assume "re_match version_rx s = Some m"
  then obtain y ys where "ms version_rx (s, Map.empty) = y # ys" "m = snd y"
    by (auto simp: re_match_def split: list.splits)
  then have "y \<in> set (ms version_rx (s, Map.empty))" "m = snd y" by simp_all
  with in_ms_version_rx [of y s Map.empty]
  obtain w where "digit_runs w" "m = Map.empty(1 \<mapsto> w)" by auto
  then have "m 1 = Some w \<and> digit_runs w" by simp
  then show ?thesis by (rule exI)
qed

lemma version_parts_digits:
  "version_parts s = Some parts \<Longrightarrow> list_all (\<lambda>p. p \<noteq> [] \<and> list_all is_digit p) parts"
  using version_rx_group [of s]
  by (auto simp: version_parts_def group_def digit_runs_def)

text \<open>The pieces of the pattern of a declaration line.\<close>

lemma sem_variable:
  "sem_of variable_rx
     (\<lambda>w t g g'. \<exists>var ws. w = var @ '':'' @ ws \<and> is_variable var \<and> list_all is_space ws \<and>
        g' = g(1 \<mapsto> var))"
proof -
  note r = sem_Seq [OF sem_Grp [OF sem_Seq [OF sem_Plus_Cls sem_Lit]] sem_Seq [OF sem_Lit sem_Star_Cls]]
  show ?thesis
    unfolding variable_rx_def is_variable_def
  proof (rule sem_of_cong [OF r], rule iffI, goal_cases)
    case (1 w t g g')
    then obtain name ws where "w = (name @ ''_image_tag'') @ '':'' @ ws" "name \<noteq> []"
      "list_all is_word name" "list_all is_space ws" "g' = g(1 \<mapsto> name @ ''_image_tag'')"
      by blast
    then show ?case by blast
  next
    case (2 w t g g')
    then obtain name ws where "w = (name @ ''_image_tag'') @ '':'' @ ws" "name \<noteq> []"
      "list_all is_word name" "list_all is_space ws" "g' = g(1 \<mapsto> name @ ''_image_tag'')"
      by blast
    then show ?case by blast
  qed
qed

lemma sem_value:
  "sem_of value_rx
     (\<lambda>w t g g'. \<exists>q1 val q2 ws. w = q1 @ val @ q2 @ ws \<and> opt_quote q1 \<and> val \<noteq> [] \<and>
        list_all is_value_char val \<and> opt_quote q2 \<and> list_all is_space ws \<and> g' = g(2 \<mapsto> val))"
proof -
  note r = sem_Seq [OF sem_Opt_Cls sem_Seq [OF sem_Grp [OF sem_Plus_Cls]
             sem_Seq [OF sem_Opt_Cls sem_Star_Cls]]]
  show ?thesis
    unfolding value_rx_def opt_quote_def
  proof (rule sem_of_cong [OF r], rule iffI, goal_cases)
    case (1 w t g g')
    then obtain q1 val q2 ws where "w = q1 @ val @ q2 @ ws" "length q1 \<le> 1"
      "list_all is_quote q1" "val \<noteq> []" "list_all is_value_char val" "length q2 \<le> 1"
      "list_all is_quote q2" "list_all is_space ws" "g' = g(2 \<mapsto> val)"
      by clarify blast
    then show ?case by blast
  next
    case (2 w t g g')
    then obtain q1 val q2 ws where "w = q1 @ val @ q2 @ ws" "length q1 \<le> 1"
      "list_all is_quote q1" "val \<noteq> []" "list_all is_value_char val" "length q2 \<le> 1"
      "list_all is_quote q2" "list_all is_space ws" "g' = g(2 \<mapsto> val)"
      by blast
    then show ?case by (intro exI conjI) (rule refl | assumption)+
  qed
qed

lemma sem_command: "sem_of command_rx (\<lambda>w t g g'. is_command w \<and> g' = g)"
proof -
  note r = sem_Seq [OF sem_Lit sem_Seq [OF sem_Plus_Cls sem_Seq [OF sem_Lit
             sem_Seq [OF sem_Plus_Cls sem_Plus_Cls]]]]
  show ?thesis
    unfolding command_rx_def is_command_def
  proof (rule sem_of_cong [OF r], rule iffI, goal_cases)
    case (1 w t g g')
    then obtain sp1 sp2 args where "w = ''skopeo'' @ sp1 @ ''list-tags'' @ sp2 @ args"
      "sp1 \<noteq> []" "list_all is_space sp1" "sp2 \<noteq> []" "list_all is_space sp2"
      "args \<noteq> []" "list_all is_dot args" "g' = g"
      by clarify blast
    then show ?case by blast
  next
    case (2 w t g g')
    then obtain sp1 sp2 args where "w = ''skopeo'' @ sp1 @ ''list-tags'' @ sp2 @ args"
      "sp1 \<noteq> []" "list_all is_space sp1" "sp2 \<noteq> []" "list_all is_space sp2"
      "args \<noteq> []" "list_all is_dot args" "g' = g"
      by blast
    then show ?case by (intro exI conjI) (rule refl | assumption)+
  qed
qed

lemma sem_comment:
  "sem_of comment_rx
     (\<lambda>w t g g'. \<exists>ws cmd. w = ''#'' @ ws @ cmd \<and> list_all is_space ws \<and> is_command cmd \<and>
        (t = [] \<or> t = [newline]) \<and> g' = g(3 \<mapsto> cmd))"
proof -
  note r = sem_Seq [OF sem_Lit sem_Seq [OF sem_Star_Cls sem_Seq [OF sem_Grp [OF sem_command] sem_Eos]]]
  show ?thesis
    unfolding comment_rx_def
  proof (rule sem_of_cong [OF r], rule iffI, goal_cases)
    case (1 w t g g')
    then obtain ws cmd where "w = ''#'' @ ws @ cmd @ []" "list_all is_space ws" "is_command cmd"
      "t = [] \<or> t = [newline]" "g' = g(3 \<mapsto> cmd)"
      by clarify blast
    then show ?case by auto
  next
    case (2 w t g g')
    then obtain ws cmd where "w = ''#'' @ ws @ cmd @ []" "list_all is_space ws" "is_command cmd"
      "t = [] \<or> t = [newline]" "g' = g(3 \<mapsto> cmd)"
      by auto
    then show ?case by (intro exI conjI) (rule refl | assumption)+
  qed
qed

lemma sem_pattern:
  "sem_of pattern
     (\<lambda>w t g g'. \<exists>var val cmd. line_shape w var val cmd \<and> (t = [] \<or> t = [newline]) \<and>
        g' = g(1 \<mapsto> var, 2 \<mapsto> val, 3 \<mapsto> cmd))"
proof -
  note r = sem_Seq [OF sem_variable sem_Seq [OF sem_value sem_comment]]
  show ?thesis
    unfolding pattern_def line_shape_def
  proof (rule sem_of_cong [OF r], rule iffI, goal_cases)
    case (1 w t g g')
    then obtain var ws1 q1 val q2 ws2 ws3 cmd where
      "w = (var @ '':'' @ ws1) @ (q1 @ val @ q2 @ ws2) @ ''#'' @ ws3 @ cmd"
      "is_variable var" "list_all is_space ws1" "opt_quote q1" "val \<noteq> []"
      "list_all is_value_char val" "opt_quote q2" "list_all is_space ws2"
      "list_all is_space ws3" "is_command cmd" "t = [] \<or> t = [newline]"
      "g' = g(1 \<mapsto> var, 2 \<mapsto> val, 3 \<mapsto> cmd)"
      by blast
    then have "w = var @ '':'' @ ws1 @ q1 @ val @ q2 @ ws2 @ ''#'' @ ws3 @ cmd \<and>
      is_variable var \<and> list_all is_space ws1 \<and> opt_quote q1 \<and> val \<noteq> [] \<and>
      list_all is_value_char val \<and> opt_quote q2 \<and> list_all is_space ws2 \<and>
      list_all is_space ws3 \<and> is_command cmd \<and> (t = [] \<or> t = [newline]) \<and>
      g' = g(1 \<mapsto> var, 2 \<mapsto> val, 3 \<mapsto> cmd)"
      by simp
    then show ?case by blast
  next
    case (2 w t g g')
    then obtain var ws1 q1 val q2 ws2 ws3 cmd where
      "w = var @ '':'' @ ws1 @ q1 @ val @ q2 @ ws2 @ ''#'' @ ws3 @ cmd"
      "is_variable var" "list_all is_space ws1" "opt_quote q1" "val \<noteq> []"
      "list_all is_value_char val" "opt_quote q2" "list_all is_space ws2"
      "list_all is_space ws3" "is_command cmd" "t = [] \<or> t = [newline]"
      "g' = g(1 \<mapsto> var, 2 \<mapsto> val, 3 \<mapsto> cmd)"
      by blast
    then have "w = (var @ '':'' @ ws1) @ (q1 @ val @ q2 @ ws2) @ ''#'' @ ws3 @ cmd \<and>
      is_variable var \<and> list_all is_space ws1 \<and> opt_quote q1 \<and> val \<noteq> [] \<and>
      list_all is_value_char val \<and> opt_quote q2 \<and> list_all is_space ws2 \<and>
      list_all is_space ws3 \<and> is_command cmd \<and> (t = [] \<or> t = [newline]) \<and>
      g' = g(1 \<mapsto> var, 2 \<mapsto> val, 3 \<mapsto> cmd)"
      by simp
    then show ?case by blast
  qed
qed

lemma strip_last: "strip l = w @ [c] \<Longrightarrow> \<not> is_space c"
proof -
  assume a: "strip l = w @ [c]"
  let ?t = "rev (dropWhile is_space l)"
  from a have "dropWhile is_space ?t = c # rev w"
    by (simp add: strip_def rev_swap)
  then show ?thesis using hd_dropWhile [of is_space ?t] by auto
qed

lemma space_newline: "is_space newline"
  by code_simp

lemma in_ms_pattern_strip:
  "y \<in> set (ms pattern (strip l, Map.empty)) \<longleftrightarrow>
     (\<exists>var val cmd. line_shape (strip l) var val cmd \<and>
        y = ([], [1 \<mapsto> var, 2 \<mapsto> val, 3 \<mapsto> cmd]))"
proof
  assume "y \<in> set (ms pattern (strip l, Map.empty))"
  then obtain w var val cmd where w: "strip l = w @ fst y" "line_shape w var val cmd"
    "fst y = [] \<or> fst y = [newline]" "snd y = [1 \<mapsto> var, 2 \<mapsto> val, 3 \<mapsto> cmd]"
    unfolding sem_ofD [OF sem_pattern] by blast
  have "fst y = []"
  proof (rule ccontr)
    assume "fst y \<noteq> []"
    with w(3) have "strip l = w @ [newline]" using w(1) by simp
    then show False using strip_last space_newline by blast
  qed
  with w show "\<exists>var val cmd. line_shape (strip l) var val cmd \<and>
        y = ([], [1 \<mapsto> var, 2 \<mapsto> val, 3 \<mapsto> cmd])"
    by (cases y) auto
next
  assume "\<exists>var val cmd. line_shape (strip l) var val cmd \<and>
        y = ([], [1 \<mapsto> var, 2 \<mapsto> val, 3 \<mapsto> cmd])"
  then obtain var val cmd where "line_shape (strip l) var val cmd"
    "y = ([], [1 \<mapsto> var, 2 \<mapsto> val, 3 \<mapsto> cmd])"
    by blast
  then have "strip l = strip l @ fst y \<and> line_shape (strip l) var val cmd \<and>
    (fst y = [] \<or> fst y = [newline]) \<and> snd y = [1 \<mapsto> var, 2 \<mapsto> val, 3 \<mapsto> cmd]"
    by simp
  then show "y \<in> set (ms pattern (strip l, Map.empty))"
    unfolding sem_ofD [OF sem_pattern] by blast
qed

lemma match_line_groups:
  assumes "re_match pattern (strip l) = Some m"
  shows "\<exists>var val cmd. m = [1 \<mapsto> var, 2 \<mapsto> val, 3 \<mapsto> cmd]"
proof -
  from assms obtain y ys where "ms pattern (strip l, Map.empty) = y # ys" "m = snd y"
    by (auto simp: re_match_def split: list.splits)
  then have "y \<in> set (ms pattern (strip l, Map.empty))" "m = snd y" by simp_all
  then obtain var val cmd where "m = [1 \<mapsto> var, 2 \<mapsto> val, 3 \<mapsto> cmd]"
    unfolding in_ms_pattern_strip by auto
  then show ?thesis by blast
qed

lemma run_unique:
  assumes "list_all P a" "list_all P a'" "a @ r = a' @ r'"
    "r = [] \<or> \<not> P (hd r)" "r' = [] \<or> \<not> P (hd r')"
  shows "a = a' \<and> r = r'"
proof -
  have tw: "takeWhile P (b @ t) = b" if "list_all P b" "t = [] \<or> \<not> P (hd t)" for b t
  proof -
    from that(2) have "takeWhile P t = []" by (cases t) auto
    with that(1) show ?thesis by (simp add: takeWhile_append2 list_all_iff)
  qed
  from tw [OF assms(1,4)] tw [OF assms(2,5)] assms(3) have "a = a'" by simp
  with assms(3) show ?thesis by simp
qed

lemma hd_other_class:
  "list_all Q a \<Longrightarrow> (\<And>c. Q c \<Longrightarrow> \<not> P c) \<Longrightarrow> a \<noteq> [] \<or> (r \<noteq> [] \<and> \<not> P (hd r)) \<Longrightarrow>
   a @ r \<noteq> [] \<and> \<not> P (hd (a @ r))"
  by (cases a) auto

lemma quote_not_space: "is_quote c \<Longrightarrow> \<not> is_space c"
  by (auto simp: is_quote_def is_space_def)

lemma space_not_quote: "is_space c \<Longrightarrow> \<not> is_quote c"
  by (auto simp: is_quote_def is_space_def)

lemma value_not_space: "is_value_char c \<Longrightarrow> \<not> is_space c"
  by (simp add: is_value_char_def)

lemma value_not_quote: "is_value_char c \<Longrightarrow> \<not> is_quote c"
  by (simp add: is_value_char_def)

lemma quote_not_value: "is_quote c \<Longrightarrow> \<not> is_value_char c"
  by (simp add: is_value_char_def)

lemma space_not_value: "is_space c \<Longrightarrow> \<not> is_value_char c"
  by (simp add: is_value_char_def)

lemma hash_classes:
  "\<not> is_space CHR ''#''" "\<not> is_quote CHR ''#''" "\<not> is_value_char CHR ''#''"
  "\<not> is_word CHR ''#''"
  by code_simp+

lemma colon_not_word: "\<not> is_word CHR '':''"
  by code_simp

lemma s_not_space: "\<not> is_space CHR ''s''"
  by code_simp

lemma suffix_word: "list_all is_word ''_image_tag''"
  by code_simp

lemma variable_word: "is_variable var \<Longrightarrow> list_all is_word var"
proof -
  assume "is_variable var"
  then obtain name where "var = name @ ''_image_tag''" "list_all is_word name"
    unfolding is_variable_def by blast
  then show ?thesis using suffix_word by (simp only: list_all_append)
qed

lemma command_head: "is_command cmd \<Longrightarrow> cmd \<noteq> [] \<and> \<not> is_space (hd cmd)"
  using s_not_space by (auto simp: is_command_def)

lemma line_shape_unique:
  assumes "line_shape s var val cmd" "line_shape s var' val' cmd'"
  shows "var = var' \<and> val = val' \<and> cmd = cmd'"
proof -
  from assms(1) obtain ws1 q1 q2 ws2 ws3 where
    s: "s = var @ '':'' @ ws1 @ q1 @ val @ q2 @ ws2 @ ''#'' @ ws3 @ cmd" and
    c: "is_variable var" "list_all is_space ws1" "opt_quote q1" "val \<noteq> []"
      "list_all is_value_char val" "opt_quote q2" "list_all is_space ws2"
      "list_all is_space ws3" "is_command cmd"
    unfolding line_shape_def by blast
  from assms(2) obtain ws1' q1' q2' ws2' ws3' where
    s': "s = var' @ '':'' @ ws1' @ q1' @ val' @ q2' @ ws2' @ ''#'' @ ws3' @ cmd'" and
    c': "is_variable var'" "list_all is_space ws1'" "opt_quote q1'" "val' \<noteq> []"
      "list_all is_value_char val'" "opt_quote q2'" "list_all is_space ws2'"
      "list_all is_space ws3'" "is_command cmd'"
    unfolding line_shape_def by blast
  let ?r7 = "cmd" and ?r7' = "cmd'"
  let ?r6 = "''#'' @ ws3 @ ?r7" and ?r6' = "''#'' @ ws3' @ ?r7'"
  let ?r5 = "ws2 @ ?r6" and ?r5' = "ws2' @ ?r6'"
  let ?r4 = "q2 @ ?r5" and ?r4' = "q2' @ ?r5'"
  let ?r3 = "val @ ?r4" and ?r3' = "val' @ ?r4'"
  let ?r2 = "q1 @ ?r3" and ?r2' = "q1' @ ?r3'"
  let ?r1 = "ws1 @ ?r2" and ?r1' = "ws1' @ ?r2'"
  have q: "list_all is_quote q1" "list_all is_quote q2" "list_all is_quote q1'"
    "list_all is_quote q2'"
    using c(3,6) c'(3,6) by (simp_all add: opt_quote_def)
  have e0: "var @ '':'' @ ?r1 = var' @ '':'' @ ?r1'"
    using s s' by simp
  have 1: "var = var' \<and> '':'' @ ?r1 = '':'' @ ?r1'"
    by (rule run_unique [OF variable_word [OF c(1)] variable_word [OF c'(1)] e0])
       (simp_all add: colon_not_word)
  then have e1: "ws1 @ ?r2 = ws1' @ ?r2'" by simp
  have h3: "?r3 \<noteq> [] \<and> \<not> is_space (hd ?r3)" "?r3 \<noteq> [] \<and> \<not> is_quote (hd ?r3)"
    using hd_other_class [OF c(5), of is_space ?r4] hd_other_class [OF c(5), of is_quote ?r4]
      c(4) value_not_space value_not_quote by blast+
  have h3': "?r3' \<noteq> [] \<and> \<not> is_space (hd ?r3')" "?r3' \<noteq> [] \<and> \<not> is_quote (hd ?r3')"
    using hd_other_class [OF c'(5), of is_space ?r4'] hd_other_class [OF c'(5), of is_quote ?r4']
      c'(4) value_not_space value_not_quote by blast+
  have h2: "?r2 \<noteq> [] \<and> \<not> is_space (hd ?r2)"
    using hd_other_class [OF q(1), of is_space ?r3] h3(1) quote_not_space by blast
  have h2': "?r2' \<noteq> [] \<and> \<not> is_space (hd ?r2')"
    using hd_other_class [OF q(3), of is_space ?r3'] h3'(1) quote_not_space by blast
  have 2: "ws1 = ws1' \<and> ?r2 = ?r2'"
    using run_unique [OF c(2) c'(2) e1] h2 h2' by blast
  have 3: "q1 = q1' \<and> ?r3 = ?r3'"
    using run_unique [OF q(1) q(3), of ?r3 ?r3'] 2 h3(2) h3'(2) by blast
  have h6: "?r6 \<noteq> [] \<and> \<not> is_value_char (hd ?r6)" "?r6 \<noteq> [] \<and> \<not> is_quote (hd ?r6)"
    "?r6 \<noteq> [] \<and> \<not> is_space (hd ?r6)"
    by (simp_all add: hash_classes)
  have h6': "?r6' \<noteq> [] \<and> \<not> is_value_char (hd ?r6')" "?r6' \<noteq> [] \<and> \<not> is_quote (hd ?r6')"
    "?r6' \<noteq> [] \<and> \<not> is_space (hd ?r6')"
    by (simp_all add: hash_classes)
  have h5: "?r5 \<noteq> [] \<and> \<not> is_value_char (hd ?r5)" "?r5 \<noteq> [] \<and> \<not> is_quote (hd ?r5)"
    using hd_other_class [OF c(7), of is_value_char ?r6] hd_other_class [OF c(7), of is_quote ?r6]
      h6 space_not_value space_not_quote by blast+
  have h5': "?r5' \<noteq> [] \<and> \<not> is_value_char (hd ?r5')" "?r5' \<noteq> [] \<and> \<not> is_quote (hd ?r5')"
    using hd_other_class [OF c'(7), of is_value_char ?r6'] hd_other_class [OF c'(7), of is_quote ?r6']
      h6' space_not_value space_not_quote by blast+
  have h4: "?r4 \<noteq> [] \<and> \<not> is_value_char (hd ?r4)"
    using hd_other_class [OF q(2), of is_value_char ?r5] h5(1) quote_not_value by blast
  have h4': "?r4' \<noteq> [] \<and> \<not> is_value_char (hd ?r4')"
    using hd_other_class [OF q(4), of is_value_char ?r5'] h5'(1) quote_not_value by blast
  have 4: "val = val' \<and> ?r4 = ?r4'"
    using run_unique [OF c(5) c'(5), of ?r4 ?r4'] 3 h4 h4' by blast
  have 5: "q2 = q2' \<and> ?r5 = ?r5'"
    using run_unique [OF q(2) q(4), of ?r5 ?r5'] 4 h5(2) h5'(2) by blast
  have 6: "ws2 = ws2' \<and> ?r6 = ?r6'"
    using run_unique [OF c(7) c'(7), of ?r6 ?r6'] 5 h6(3) h6'(3) by blast
  then have e7: "ws3 @ cmd = ws3' @ cmd'" by simp
  have 7: "ws3 = ws3' \<and> cmd = cmd'"
    using run_unique [OF c(8) c'(8) e7] command_head [OF c(9)] command_head [OF c'(9)] by blast
  from 1 4 7 show ?thesis by blast
qed

lemma line_shape_comment:
  assumes "line_shape s var val cmd"
  shows "cmd = comment_text s"
proof -
  from assms obtain ws1 q1 q2 ws2 ws3 where
    s: "s = var @ '':'' @ ws1 @ q1 @ val @ q2 @ ws2 @ ''#'' @ ws3 @ cmd" and
    c: "is_variable var" "list_all is_space ws1" "opt_quote q1"
      "list_all is_value_char val" "opt_quote q2" "list_all is_space ws2"
      "list_all is_space ws3" "is_command cmd"
    unfolding line_shape_def by blast
  let ?pre = "var @ '':'' @ ws1 @ q1 @ val @ q2 @ ws2"
  have n: "list_all (\<lambda>c. c \<noteq> CHR ''#'') a" if "list_all Q a" "\<not> Q CHR ''#''" for Q a
    using that by (auto simp: list_all_iff)
  have q: "list_all is_quote q1" "list_all is_quote q2"
    using c(3,5) by (simp_all add: opt_quote_def)
  have "list_all (\<lambda>c. c \<noteq> CHR ''#'') ?pre"
    using n [OF variable_word [OF c(1)] hash_classes(4)] n [OF c(2) hash_classes(1)]
      n [OF q(1) hash_classes(2)] n [OF c(4) hash_classes(3)] n [OF q(2) hash_classes(2)]
      n [OF c(6) hash_classes(1)]
    by simp
  then have "dropWhile (\<lambda>c. c \<noteq> CHR ''#'') (?pre @ ''#'' @ ws3 @ cmd) = ''#'' @ ws3 @ cmd"
    by (simp add: dropWhile_append2 list_all_iff)
  then have "tl (dropWhile (\<lambda>c. c \<noteq> CHR ''#'') s) = ws3 @ cmd"
    using s by simp
  moreover have "dropWhile is_space (ws3 @ cmd) = cmd"
  proof -
    from command_head [OF c(8)] have "dropWhile is_space cmd = cmd" by (cases cmd) auto
    with c(7) show ?thesis by (simp add: dropWhile_append2 list_all_iff)
  qed
  ultimately show ?thesis by (simp add: comment_text_def)
qed

lemma command_prefix: "is_command cmd \<Longrightarrow> startswith cmd ''skopeo''"
  by (auto simp: is_command_def startswith_def)

lemma match_line_iff:
  "(match_line (n, l) = Some ts) =
     (line_shape (strip l) (variable ts) (current_value ts) (skopeo_command ts) \<and>
      line_number ts = n)"
proof
  assume a: "match_line (n, l) = Some ts"
  then obtain y ys where y: "ms pattern (strip l, Map.empty) = y # ys"
    and ts: "ts = \<lparr>variable = group (snd y) 1, current_value = group (snd y) 2,
                skopeo_command = group (snd y) 3, line_number = n\<rparr>"
    by (auto simp: match_line_def re_match_def split: list.splits)
  from y have "y \<in> set (ms pattern (strip l, Map.empty))" by simp
  then obtain var val cmd where "line_shape (strip l) var val cmd"
    "y = ([], [1 \<mapsto> var, 2 \<mapsto> val, 3 \<mapsto> cmd])"
    unfolding in_ms_pattern_strip by blast
  with ts show "line_shape (strip l) (variable ts) (current_value ts) (skopeo_command ts) \<and>
      line_number ts = n"
    by (simp add: group_def)
next
  assume b: "line_shape (strip l) (variable ts) (current_value ts) (skopeo_command ts) \<and>
      line_number ts = n"
  let ?y0 = "([], [1 \<mapsto> variable ts, 2 \<mapsto> current_value ts, 3 \<mapsto> skopeo_command ts])"
  from b have "?y0 \<in> set (ms pattern (strip l, Map.empty))"
    unfolding in_ms_pattern_strip by blast
  then obtain y ys where y: "ms pattern (strip l, Map.empty) = y # ys"
    by (cases "ms pattern (strip l, Map.empty)") auto
  then have "y \<in> set (ms pattern (strip l, Map.empty))" by simp
  then obtain var val cmd where v: "line_shape (strip l) var val cmd"
    "y = ([], [1 \<mapsto> var, 2 \<mapsto> val, 3 \<mapsto> cmd])"
    unfolding in_ms_pattern_strip by blast
  from line_shape_unique [OF v(1)] b
  have "var = variable ts \<and> val = current_value ts \<and> cmd = skopeo_command ts" by blast
  with v(2) y b show "match_line (n, l) = Some ts"
    by (simp add: match_line_def re_match_def group_def)
qed

lemma parse_snoc:
  "parse_image_tag_lines (f @ [l]) =
     parse_image_tag_lines f @
       (case match_line (Suc (length f), l) of None \<Rightarrow> [] | Some ts \<Rightarrow> [ts])"
  by (simp add: parse_image_tag_lines_def enumerate_append_eq List.map_filter_def
      split: option.splits)

lemma parse_line_numbers:
  "map line_number (parse_image_tag_lines f) =
     filter (\<lambda>n. match_line (n, f ! (n - 1)) \<noteq> None) [1..<Suc (length f)]"
proof (induction f rule: rev_induct)
  case Nil
  then show ?case by (simp add: parse_image_tag_lines_def List.map_filter_def)
next
  case (snoc l f)
  have "filter (\<lambda>n. match_line (n, (f @ [l]) ! (n - 1)) \<noteq> None) [1..<Suc (length f)] =
        filter (\<lambda>n. match_line (n, f ! (n - 1)) \<noteq> None) [1..<Suc (length f)]"
    by (rule filter_cong) (auto simp: nth_append)
  moreover have "line_number ts = Suc (length f)" if "match_line (Suc (length f), l) = Some ts" for ts
    using that by (simp add: match_line_iff)
  ultimately show ?case
    using snoc by (auto simp: parse_snoc split: option.splits)
qed

lemma example_parsed:
  "parse_image_tag_lines [example_line] =
     [\<lparr>variable = ''foo_image_tag'', current_value = ''1.2.3'',
       skopeo_command = example_command, line_number = 1\<rparr>]"
  by code_simp

text \<open>
  Claim C7. A line yields a declaration exactly when, trimmed, it has the shape
  \<open>line_shape\<close>: a variable ending in \<^verbatim>\<open>_image_tag\<close>, a colon, an optionally quoted value
  without whitespace, quote or \<^verbatim>\<open>#\<close>, and a comment that begins with the words \<^verbatim>\<open>skopeo\<close>
  and \<^verbatim>\<open>list-tags\<close> followed by a trailing text; the declaration then holds that variable,
  that value, the number of the line, and as its command the whole text of the comment.
  A line whose comment does not begin so yields nothing. The result holds one declaration
  per such line, in the order of the lines: a further line adds its declaration at the
  end or adds nothing. The example line of the specification yields its declaration.
\<close>

theorem extractor_one_per_matching_line:
  "(match_line (n, l) = Some ts) =
     (line_shape (strip l) (variable ts) (current_value ts) (skopeo_command ts) \<and>
      line_number ts = n)
   \<and> (match_line (n, l) = Some ts \<longrightarrow> skopeo_command ts = comment_text (strip l))
   \<and> (\<not> startswith (comment_text (strip l)) ''skopeo'' \<longrightarrow> match_line (n, l) = None)
   \<and> (\<not> is_command (comment_text (strip l)) \<longrightarrow> match_line (n, l) = None)
   \<and> parse_image_tag_lines [] = []
   \<and> parse_image_tag_lines (f @ [l]) =
       parse_image_tag_lines f @
         (case match_line (Suc (length f), l) of None \<Rightarrow> [] | Some ts \<Rightarrow> [ts])
   \<and> map line_number (parse_image_tag_lines f) =
       filter (\<lambda>n. match_line (n, f ! (n - 1)) \<noteq> None) [1..<Suc (length f)]
   \<and> parse_image_tag_lines [example_line] =
       [\<lparr>variable = ''foo_image_tag'', current_value = ''1.2.3'',
         skopeo_command = example_command, line_number = 1\<rparr>]"
proof -
  have c: "skopeo_command t = comment_text (strip l) \<and> is_command (comment_text (strip l))"
    if "match_line (n, l) = Some t" for t
  proof -
    from that have sh: "line_shape (strip l) (variable t) (current_value t) (skopeo_command t)"
      by (simp add: match_line_iff)
    then have "is_command (skopeo_command t)" unfolding line_shape_def by blast
    with line_shape_comment [OF sh] show ?thesis by simp
  qed
  have d: "match_line (n, l) = None" if "\<not> is_command (comment_text (strip l))"
    using that c by (cases "match_line (n, l)") auto
  have e: "match_line (n, l) = None" if "\<not> startswith (comment_text (strip l)) ''skopeo''"
    using that d command_prefix by blast
  have z: "parse_image_tag_lines [] = []"
    by (simp add: parse_image_tag_lines_def List.map_filter_def)
  from match_line_iff [of n l ts] c [of ts] d e z parse_snoc [of f l] parse_line_numbers [of f]
    example_parsed
  show ?thesis by blast
qed

text \<open>
  Three lines: one that is no declaration, the example line, and a declaration whose
  comment lacks the words. The second alone yields a declaration, with line number 2.
\<close>

theorem extractor_one_per_matching_line_witness:
  "match_line (2, example_line) =
     Some \<lparr>variable = ''foo_image_tag'', current_value = ''1.2.3'',
           skopeo_command = example_command, line_number = 2\<rparr>
   \<and> line_shape (strip example_line) ''foo_image_tag'' ''1.2.3'' example_command
   \<and> example_command = comment_text (strip example_line)
   \<and> \<not> startswith (comment_text (strip ''foo_image_tag: 1.2.3  # docker://x'')) ''skopeo''
   \<and> \<not> is_command (comment_text (strip ''foo_image_tag: 1.2.3  # docker://x''))
   \<and> match_line (3, ''foo_image_tag: 1.2.3  # docker://x'') = None
   \<and> parse_image_tag_lines
        ([''apps:'', example_line] @ [''foo_image_tag: 1.2.3  # docker://x'']) =
       [\<lparr>variable = ''foo_image_tag'', current_value = ''1.2.3'',
         skopeo_command = example_command, line_number = 2\<rparr>]"
proof -
  let ?ts = "\<lparr>variable = ''foo_image_tag'', current_value = ''1.2.3'',
           skopeo_command = example_command, line_number = 2\<rparr>"
  let ?bad = "''foo_image_tag: 1.2.3  # docker://x''"
  have m: "match_line (2, example_line) = Some ?ts" by code_simp
  have b: "\<not> startswith (comment_text (strip ?bad)) ''skopeo''" by code_simp
  have b': "\<not> is_command (comment_text (strip ?bad))"
    using b command_prefix by blast
  have p: "parse_image_tag_lines [''apps:'', example_line] = [?ts]" by code_simp
  note t = extractor_one_per_matching_line [of 2 example_line ?ts "[''apps:'', example_line]"]
  note u = extractor_one_per_matching_line [of 3 ?bad ?ts "[''apps:'', example_line]"]
  from t m have 1: "line_shape (strip example_line) ''foo_image_tag'' ''1.2.3'' example_command"
    by simp
  from t m have 2: "example_command = comment_text (strip example_line)"
    by simp
  from u b have 3: "match_line (3, ?bad) = None" by blast
  from u have "parse_image_tag_lines ([''apps:'', example_line] @ [?bad]) =
      parse_image_tag_lines [''apps:'', example_line] @
        (case match_line (Suc (length [''apps:'', example_line]), ?bad) of
           None \<Rightarrow> [] | Some ts \<Rightarrow> [ts])"
    by blast
  with 3 p have 4: "parse_image_tag_lines ([''apps:'', example_line] @ [?bad]) = [?ts]"
    by (simp add: numeral_3_eq_3)
  from m 1 2 b b' 3 4 show ?thesis by blast
qed

section \<open>The numeric segments of a tag\<close>

text \<open>
  What \<^verbatim>\<open>int\<close> computes on a run of digits is its value by place, and the pattern of a
  version, being greedy, takes all the numeric segments with which the text begins: the first
  match of each repetition is the longest one.
\<close>

lemma horner_snoc:
  "foldl (\<lambda>a c. 10 * a + digit_val c) 0 (ds @ [c]) =
     10 * foldl (\<lambda>a c. 10 * a + digit_val c) 0 ds + digit_val c"
  by simp

lemma decimal_value_snoc: "decimal_value (ds @ [c]) = 10 * decimal_value ds + digit_val c"
proof -
  have "(\<Sum>i<length ds. digit_val ((ds @ [c]) ! i) * 10 ^ (Suc (length ds) - Suc i)) =
        (\<Sum>i<length ds. 10 * (digit_val (ds ! i) * 10 ^ (length ds - Suc i)))"
  proof (rule sum.cong)
    fix i assume "i \<in> {..<length ds}"
    then have i: "i < length ds" by simp
    then have "Suc (length ds) - Suc i = Suc (length ds - Suc i)" by simp
    with i show "digit_val ((ds @ [c]) ! i) * 10 ^ (Suc (length ds) - Suc i) =
        10 * (digit_val (ds ! i) * 10 ^ (length ds - Suc i))"
      by (simp add: nth_append)
  qed simp
  then show ?thesis
    by (simp add: decimal_value_def sum_distrib_left)
qed

lemma horner_decimal: "foldl (\<lambda>a c. 10 * a + digit_val c) 0 ds = decimal_value ds"
proof (induction ds rule: rev_induct)
  case Nil
  then show ?case by (simp add: decimal_value_def)
next
  case (snoc c ds)
  then show ?case by (simp add: decimal_value_snoc)
qed

lemma py_int_value: "py_int lim p = Inr n \<Longrightarrow> n = decimal_value p"
  by (auto simp: py_int_def horner_decimal split: if_splits)

lemma py_ints_values: "py_ints lim ps = Inr ns \<Longrightarrow> ns = map decimal_value ps"
  by (induction ps arbitrary: ns) (auto split: sum.splits dest: py_int_value)

lemma py_int_run:
  "is_run p \<Longrightarrow>
   py_int lim p = (if within_digit_limit lim p then Inr (decimal_value p) else Inl ValueError)"
  by (auto simp: py_int_def is_run_def horner_decimal within_digit_limit_def)

lemma py_ints_runs:
  "list_all is_run ps \<Longrightarrow> list_all (within_digit_limit lim) ps \<Longrightarrow>
   py_ints lim ps = Inr (map decimal_value ps)"
  by (induction ps) (simp_all add: py_int_run)

lemma py_ints_over:
  "list_all is_run ps \<Longrightarrow> \<not> list_all (within_digit_limit lim) ps \<Longrightarrow>
   \<exists>e. py_ints lim ps = Inl e"
  by (induction ps) (auto simp: py_int_run split: sum.splits)

lemma star_iter_Suc_hd:
  "f x = y # ys \<Longrightarrow> length (fst y) < length (fst x) \<Longrightarrow> star_iter n f y = z # zs \<Longrightarrow>
   \<exists>rest. star_iter (Suc n) f x = z # rest"
  by simp

lemma star_iter_none: "f x = [] \<Longrightarrow> star_iter n f x = [x]"
  by (cases n) simp_all

lemma ms_Seq_hd:
  "ms a x = y # ys \<Longrightarrow> ms b y = z # zs \<Longrightarrow> \<exists>rest. ms (Seq a b) x = z # rest"
  by simp

lemma ms_Grp_hd:
  "ms a (s, g) = (r, g') # ys \<Longrightarrow>
   \<exists>rest. ms (Grp n a) (s, g) = (r, g'(n \<mapsto> take (length s - length r) s)) # rest"
  by simp

lemma star_iter_Cls_hd:
  "length s \<le> n \<Longrightarrow> \<exists>rest. star_iter n (ms (Cls p)) (s, g) = (dropWhile p s, g) # rest"
proof (induction n arbitrary: s)
  case 0
  then show ?case by simp
next
  case (Suc n)
  show ?case
  proof (cases s)
    case Nil
    then have "ms (Cls p) (s, g) = []" by simp
    then have "star_iter (Suc n) (ms (Cls p)) (s, g) = [(s, g)]"
      by (rule star_iter_none [where f = "ms (Cls p)" and x = "(s, g)"])
    with Nil show ?thesis by simp
  next
    case (Cons c s')
    show ?thesis
    proof (cases "p c")
      case True
      from Suc.prems Cons have "length s' \<le> n" by simp
      from Suc.IH [OF this] obtain rest where
        r: "star_iter n (ms (Cls p)) (s', g) = (dropWhile p s', g) # rest" by blast
      have f: "ms (Cls p) (s, g) = [(s', g)]" using Cons True by simp
      have l: "length (fst (s', g)) < length (fst (s, g))" using Cons by simp
      have d: "dropWhile p s = dropWhile p s'" using Cons True by simp
      show ?thesis unfolding d by (rule star_iter_Suc_hd [OF f l r])
    next
      case False
      with Cons have "ms (Cls p) (s, g) = []" by simp
      then have "star_iter (Suc n) (ms (Cls p)) (s, g) = [(s, g)]"
        by (rule star_iter_none [where f = "ms (Cls p)" and x = "(s, g)"])
      with Cons False show ?thesis by simp
    qed
  qed
qed

lemma dropWhile_run:
  "list_all p ds \<Longrightarrow> t = [] \<or> \<not> p (hd t) \<Longrightarrow> dropWhile p (ds @ t) = t"
  by (cases t) (simp_all add: dropWhile_append2 list_all_iff)

lemma ms_Plus_run:
  assumes "is_run ds" "t = [] \<or> \<not> is_digit (hd t)"
  shows "\<exists>rest. ms (Plus (Cls is_digit)) (ds @ t, g) = (t, g) # rest"
proof -
  from assms(1) obtain c ds' where ds: "ds = c # ds'" "is_digit c" "list_all is_digit ds'"
    by (cases ds) (auto simp: is_run_def)
  from star_iter_Cls_hd [of "ds' @ t" "length (ds' @ t)" is_digit g]
  obtain rest where i: "star_iter (length (ds' @ t)) (ms (Cls is_digit)) (ds' @ t, g) =
      (dropWhile is_digit (ds' @ t), g) # rest"
    by blast
  have t: "dropWhile is_digit (ds' @ t) = t"
    using ds(3) assms(2) by (rule dropWhile_run)
  have c: "ms (Cls is_digit) (ds @ t, g) = [(ds' @ t, g)]"
    using ds by simp
  have "ms (Plus (Cls is_digit)) (ds @ t, g) =
          concat (map (\<lambda>y. star_iter (length (fst y)) (ms (Cls is_digit)) y)
            (ms (Cls is_digit) (ds @ t, g)))"
    by (simp only: ms.simps)
  also have "\<dots> = star_iter (length (ds' @ t)) (ms (Cls is_digit)) (ds' @ t, g)"
    unfolding c by simp
  finally show ?thesis using i t by simp
qed

lemma body_hd:
  assumes "is_sep c" "is_run ds" "t = [] \<or> \<not> is_digit (hd t)"
  shows "\<exists>rest. ms (Seq (Cls is_sep) (Plus (Cls is_digit))) (c # ds @ t, g) = (t, g) # rest"
proof -
  from ms_Plus_run [OF assms(2,3), of g] obtain rest where
    p: "ms (Plus (Cls is_digit)) (ds @ t, g) = (t, g) # rest" by blast
  have c: "ms (Cls is_sep) (c # ds @ t, g) = [(ds @ t, g)]"
    using assms(1) by simp
  from ms_Seq_hd [OF c p] show ?thesis .
qed

lemma body_none: "stops r \<Longrightarrow> ms (Seq (Cls is_sep) (Plus (Cls is_digit))) (r, g) = []"
  by (auto simp: stops_def split: list.splits)

lemma tail_start:
  assumes "list_all (\<lambda>cp. is_sep (fst cp) \<and> is_run (snd cp)) ps" "stops r"
  shows "tail_text ps @ r = [] \<or> \<not> is_digit (hd (tail_text ps @ r))"
proof (cases ps)
  case Nil
  with assms(2) show ?thesis by (auto simp: tail_text_def stops_def split: list.splits)
next
  case (Cons cp ps')
  with assms(1) have "is_sep (fst cp)" by simp
  then have "\<not> is_digit (fst cp)" using digit_not_sep by blast
  with Cons show ?thesis by (simp add: tail_text_def)
qed

lemma star_tail_hd:
  assumes "list_all (\<lambda>cp. is_sep (fst cp) \<and> is_run (snd cp)) ps" "stops r"
    "length (tail_text ps @ r) \<le> n"
  shows "\<exists>rest. star_iter n (ms (Seq (Cls is_sep) (Plus (Cls is_digit)))) (tail_text ps @ r, g) =
           (r, g) # rest"
  using assms
proof (induction ps arbitrary: n)
  case Nil
  have e: "tail_text [] @ r = r" by (simp add: tail_text_def)
  have "star_iter n (ms (Seq (Cls is_sep) (Plus (Cls is_digit)))) (r, g) = [(r, g)]"
    by (rule star_iter_none [where f = "ms (Seq (Cls is_sep) (Plus (Cls is_digit)))" and x = "(r, g)"])
      (rule body_none [OF Nil(2)])
  then show ?case unfolding e by (rule exI [of _ "[]"])
next
  case (Cons cp ps)
  let ?body = "Seq (Cls is_sep) (Plus (Cls is_digit))"
  let ?t = "tail_text ps @ r"
  from Cons.prems(1) have ok: "is_sep (fst cp)" "is_run (snd cp)"
    "list_all (\<lambda>cp. is_sep (fst cp) \<and> is_run (snd cp)) ps"
    by simp_all
  have tx: "tail_text (cp # ps) @ r = fst cp # snd cp @ ?t"
    by (simp add: tail_text_def)
  from Cons.prems(3) tx obtain m where n: "n = Suc m" and len: "length ?t \<le> m"
    by (cases n) auto
  from body_hd [OF ok(1,2) tail_start [OF ok(3) Cons.prems(2)], of g]
  obtain rest where b: "ms ?body (fst cp # snd cp @ ?t, g) = (?t, g) # rest" by blast
  from Cons.IH [OF ok(3) Cons.prems(2) len]
  obtain rest' where i: "star_iter m (ms ?body) (?t, g) = (r, g) # rest'" by blast
  have l: "length (fst (?t, g)) < length (fst (fst cp # snd cp @ ?t, g))" by simp
  from star_iter_Suc_hd [OF b l i] show ?case unfolding tx n .
qed

lemma version_rx_hd:
  assumes "runs_ok d ps" "stops r"
  shows "\<exists>rest. ms version_rx (run_text d ps @ r, g) = (r, g(1 \<mapsto> run_text d ps)) # rest"
proof -
  let ?body = "Seq (Cls is_sep) (Plus (Cls is_digit))"
  let ?t = "tail_text ps @ r"
  from assms(1) have ok: "is_run d" "list_all (\<lambda>cp. is_sep (fst cp) \<and> is_run (snd cp)) ps"
    by (simp_all add: runs_ok_def)
  from ms_Plus_run [OF ok(1) tail_start [OF ok(2) assms(2)], of g]
  obtain rest where p: "ms (Plus (Cls is_digit)) (d @ ?t, g) = (?t, g) # rest" by blast
  from star_tail_hd [OF ok(2) assms(2) le_refl, of g]
  obtain rest2 where "star_iter (length ?t) (ms ?body) (?t, g) = (r, g) # rest2" by blast
  then have s: "ms (Star ?body) (?t, g) = (r, g) # rest2"
    by (simp only: ms.simps fst_conv)
  from ms_Seq_hd [OF p s] obtain rest3 where
    "ms (Seq (Plus (Cls is_digit)) (Star ?body)) (d @ ?t, g) = (r, g) # rest3" by blast
  from ms_Grp_hd [OF this, of 1] obtain rest4 where
    "ms version_rx (d @ ?t, g) = (r, g(1 \<mapsto> take (length (d @ ?t) - length r) (d @ ?t))) # rest4"
    unfolding version_rx_def by blast
  moreover have "take (length (d @ ?t) - length r) (d @ ?t) = d @ tail_text ps" by simp
  ultimately show ?thesis by (simp add: run_text_def)
qed

lemma split_on_runs:
  assumes "runs_ok d ps"
  shows "split_on is_sep (run_text d ps) = d # map snd ps"
  using assms
proof (induction ps arbitrary: d)
  case Nil
  then have "list_all (\<lambda>c. \<not> is_sep c) d"
    using digit_not_sep by (auto simp: runs_ok_def is_run_def list_all_iff)
  then show ?case by (simp add: run_text_def tail_text_def split_on_none)
next
  case (Cons cp ps)
  then have d: "list_all (\<lambda>c. \<not> is_sep c) d" and c: "is_sep (fst cp)"
    and r: "runs_ok (snd cp) ps"
    using digit_not_sep by (auto simp: runs_ok_def is_run_def list_all_iff)
  have "run_text d (cp # ps) = d @ fst cp # run_text (snd cp) ps"
    by (simp add: run_text_def tail_text_def)
  then show ?case
    using split_on_append_sep [of is_sep "fst cp" d "run_text (snd cp) ps"] c
      split_on_none [OF d] Cons.IH [OF r]
    by simp
qed

lemma version_parts_runs:
  assumes "runs_ok d ps" "stops r"
  shows "version_parts (run_text d ps @ r) = Some (d # map snd ps)"
proof -
  from version_rx_hd [OF assms, of Map.empty] obtain rest where
    "ms version_rx (run_text d ps @ r, Map.empty) = (r, [1 \<mapsto> run_text d ps]) # rest"
    by blast
  then show ?thesis
    by (simp add: version_parts_def re_match_def group_def split_on_runs [OF assms(1)])
qed

lemma tail_decomp:
  "t = [] \<or> \<not> is_digit (hd t) \<Longrightarrow>
   \<exists>ps r. t = tail_text ps @ r \<and> list_all (\<lambda>cp. is_sep (fst cp) \<and> is_run (snd cp)) ps \<and>
     stops r \<and> tail_segments t = map snd ps"
proof (induction t rule: tail_segments.induct)
  case 1
  have "[] = tail_text [] @ [] \<and> list_all (\<lambda>cp. is_sep (fst cp) \<and> is_run (snd cp)) [] \<and>
    stops [] \<and> tail_segments [] = map snd []"
    by (simp add: tail_text_def stops_def)
  then show ?case by blast
next
  case (2 c)
  then have "[c] = tail_text [] @ [c] \<and> list_all (\<lambda>cp. is_sep (fst cp) \<and> is_run (snd cp)) [] \<and>
    stops [c] \<and> tail_segments [c] = map snd []"
    by (simp add: tail_text_def stops_def)
  then show ?case by blast
next
  case (3 c d u)
  show ?case
  proof (cases "is_sep c \<and> is_digit d")
    case True
    let ?p = "d # takeWhile is_digit u"
    let ?t = "dropWhile is_digit u"
    have "?t = [] \<or> \<not> is_digit (hd ?t)"
      using hd_dropWhile [of is_digit u] by blast
    from "3.IH" [OF True this] obtain ps r where
      ih: "?t = tail_text ps @ r" "list_all (\<lambda>cp. is_sep (fst cp) \<and> is_run (snd cp)) ps"
        "stops r" "tail_segments ?t = map snd ps"
      by blast
    have p: "is_run ?p"
      using True by (auto simp: is_run_def list_all_iff dest: set_takeWhileD)
    have "c # d # u = c # ?p @ ?t" by simp
    also have "\<dots> = tail_text ((c, ?p) # ps) @ r"
      unfolding ih(1) by (simp add: tail_text_def)
    finally have "c # d # u = tail_text ((c, ?p) # ps) @ r" .
    moreover have "list_all (\<lambda>cp. is_sep (fst cp) \<and> is_run (snd cp)) ((c, ?p) # ps)"
      using True p ih(2) by simp
    moreover have "tail_segments (c # d # u) = map snd ((c, ?p) # ps)"
      using True ih(4) by simp
    ultimately show ?thesis using ih(3) by blast
  next
    case False
    with "3.prems" have "c # d # u = tail_text [] @ (c # d # u) \<and>
      list_all (\<lambda>cp. is_sep (fst cp) \<and> is_run (snd cp)) [] \<and>
      stops (c # d # u) \<and> tail_segments (c # d # u) = map snd []"
      by (auto simp: tail_text_def stops_def)
    then show ?thesis by blast
  qed
qed

lemma segments_decomp:
  assumes "has_numeric_run s"
  shows "\<exists>d ps r. s = run_text d ps @ r \<and> runs_ok d ps \<and> stops r \<and>
    numeric_segments s = d # map snd ps"
proof -
  let ?d = "takeWhile is_digit s"
  let ?t = "dropWhile is_digit s"
  from assms have d: "is_run ?d"
    by (cases s) (auto simp: has_numeric_run_def is_run_def list_all_iff dest: set_takeWhileD)
  have "?t = [] \<or> \<not> is_digit (hd ?t)"
    using hd_dropWhile [of is_digit s] by blast
  from tail_decomp [OF this] obtain ps r where
    t: "?t = tail_text ps @ r" "list_all (\<lambda>cp. is_sep (fst cp) \<and> is_run (snd cp)) ps"
      "stops r" "tail_segments ?t = map snd ps"
    by blast
  have "s = ?d @ ?t" by simp
  also have "\<dots> = run_text ?d ps @ r" unfolding t(1) by (simp add: run_text_def)
  finally have "s = run_text ?d ps @ r" .
  moreover have "runs_ok ?d ps" using d t(2) by (simp add: runs_ok_def)
  moreover have "numeric_segments s = ?d # map snd ps"
    using assms t(4) by (simp add: numeric_segments_def)
  ultimately show ?thesis using t(3) by blast
qed

lemma numeric_segments_runs: "list_all is_run (numeric_segments s)"
proof (cases "has_numeric_run s")
  case True
  from segments_decomp [OF this] obtain d ps r where
    "runs_ok d ps" "numeric_segments s = d # map snd ps" by blast
  then show ?thesis by (auto simp: runs_ok_def list_all_iff)
next
  case False
  then show ?thesis by (simp add: numeric_segments_def)
qed

lemma version_parts_segments:
  "version_parts s = (if has_numeric_run s then Some (numeric_segments s) else None)"
proof (cases "has_numeric_run s")
  case True
  from segments_decomp [OF this] obtain d ps r where
    d: "s = run_text d ps @ r" "runs_ok d ps" "stops r" "numeric_segments s = d # map snd ps"
    by blast
  from version_parts_runs [OF d(2,3)] d(1,4) True show ?thesis by simp
next
  case False
  then show ?thesis by (simp add: version_parts_def version_rx_no_run)
qed

lemma numeric_segments_text:
  assumes "runs_ok d ps" "stops r"
  shows "has_numeric_run (run_text d ps @ r) \<and> numeric_segments (run_text d ps @ r) = d # map snd ps"
proof -
  from assms(1) have "has_numeric_run (run_text d ps @ r)"
    by (cases d) (auto simp: runs_ok_def is_run_def run_text_def has_numeric_run_def)
  moreover from version_parts_runs [OF assms] version_parts_segments [of "run_text d ps @ r"] this
  have "numeric_segments (run_text d ps @ r) = d # map snd ps" by simp
  ultimately show ?thesis by simp
qed

text \<open>
  What \<open>parse_version\<close> returns, in terms of the text of the tag: the values of the
  numeric segments with which the tag, its prefix removed, begins, when there are any and none
  is beyond the limit of the conversion; the fallback key otherwise.
\<close>

lemma parse_version_segments:
  "parse_version lim tag =
     (if has_numeric_run (remove_prefix tag) \<and>
         list_all (within_digit_limit lim) (numeric_segments (remove_prefix tag))
      then map PInt (segment_values tag) else fallback tag)"
proof (cases "has_numeric_run (remove_prefix tag)")
  case False
  then show ?thesis by (simp add: parse_version_parts version_parts_segments)
next
  case True
  let ?segs = "numeric_segments (remove_prefix tag)"
  have r: "list_all is_run ?segs" by (rule numeric_segments_runs)
  show ?thesis
  proof (cases "list_all (within_digit_limit lim) ?segs")
    case True
    from py_ints_runs [OF r this] \<open>has_numeric_run (remove_prefix tag)\<close> True show ?thesis
      by (simp add: parse_version_parts version_parts_segments segment_values_def)
  next
    case False
    from py_ints_over [OF r this] obtain e where "py_ints lim ?segs = Inl e" by blast
    with \<open>has_numeric_run (remove_prefix tag)\<close> False show ?thesis
      by (simp add: parse_version_parts version_parts_segments)
  qed
qed

lemma fallback_not_ints: "fallback tag \<noteq> map PInt xs"
  by (cases xs) (simp_all add: fallback_def)

lemma map_PInt_inj: "map PInt xs = map PInt ys \<Longrightarrow> xs = ys"
  by (simp add: inj_map_eq_map inj_on_def)

lemma parse_version_ints:
  "parse_version lim tag = map PInt xs \<Longrightarrow> xs = segment_values tag"
  using fallback_not_ints [of tag xs] map_PInt_inj [of "segment_values tag" xs]
  by (auto simp: parse_version_segments split: if_splits)

lemma not_digit_v: "\<not> is_digit CHR ''v''"
  by code_simp

lemma remove_prefix_run: "has_numeric_run tag \<Longrightarrow> remove_prefix tag = tag"
proof -
  assume "has_numeric_run tag"
  then obtain c t where t: "tag = c # t" "is_digit c"
    by (cases tag) (auto simp: has_numeric_run_def)
  then have "lower_char c = c" by (auto simp: lower_char_def is_digit_def Let_def)
  moreover from t(2) not_digit_v have "c \<noteq> CHR ''v''" by blast
  ultimately have "\<not> startswith (lower tag) ''v''"
    using t(1) by (simp add: startswith_def lower_def)
  then show ?thesis by (simp add: remove_prefix_eq)
qed

lemma parse_version_run_text:
  assumes "runs_ok d ps" "list_all (within_digit_limit lim) (d # map snd ps)"
  shows "parse_version lim (run_text d ps) = map PInt (map decimal_value (d # map snd ps))"
proof -
  have s: "stops []" by (simp add: stops_def)
  from numeric_segments_text [OF assms(1) s]
  have n: "has_numeric_run (run_text d ps)" "numeric_segments (run_text d ps) = d # map snd ps"
    by simp_all
  from remove_prefix_run [OF n(1)] n assms(2) show ?thesis
    by (simp add: parse_version_segments segment_values_def)
qed

text \<open>
  Claim C4. When two tags both get integer keys, these keys are the values of the numeric
  segments of the tags, and \<^verbatim>\<open><\<close> on the keys is the comparison of the two sequences of
  values position by position, a proper prefix being the lesser and nothing being padded.
  A tag made of runs of digits with one separator between two runs gets the values of
  its runs as its key, so that two such tags compare as the sequences of their values.
  The key of \<^verbatim>\<open>"16.9"\<close> is below the key of \<^verbatim>\<open>"16.11"\<close>, and the key of \<^verbatim>\<open>"16"\<close> is below
  the key of \<^verbatim>\<open>"16.0"\<close>.
\<close>

theorem numeric_keys_compare:
  "(parse_version lim a = map PInt xs \<and> parse_version lim b = map PInt ys \<longrightarrow>
      xs = segment_values a \<and> ys = segment_values b \<and>
      tuple_lt (parse_version lim a) (parse_version lim b) = Inr (spec_lex_lt xs ys))
   \<and> (runs_ok da pa \<and> list_all (within_digit_limit lim) (da # map snd pa) \<and>
       runs_ok db pb \<and> list_all (within_digit_limit lim) (db # map snd pb) \<longrightarrow>
      parse_version lim (run_text da pa) = map PInt (map decimal_value (da # map snd pa)) \<and>
      parse_version lim (run_text db pb) = map PInt (map decimal_value (db # map snd pb)) \<and>
      tuple_lt (parse_version lim (run_text da pa)) (parse_version lim (run_text db pb)) =
        Inr (spec_lex_lt (map decimal_value (da # map snd pa))
               (map decimal_value (db # map snd pb))))
   \<and> tuple_lt (parse_version lim ''16.9'') (parse_version lim ''16.11'') = Inr True
   \<and> tuple_lt (parse_version lim ''16'') (parse_version lim ''16.0'') = Inr True"
proof -
  have t: "tuple_lt (map PInt us) (map PInt vs) = Inr (spec_lex_lt us vs)" for us vs
    by (simp add: tuple_lt_ints spec_lex_lt_less)
  have one: "xs = segment_values a \<and> ys = segment_values b \<and>
      tuple_lt (parse_version lim a) (parse_version lim b) = Inr (spec_lex_lt xs ys)"
    if "parse_version lim a = map PInt xs" "parse_version lim b = map PInt ys"
    using that parse_version_ints [of lim a xs] parse_version_ints [of lim b ys] t [of xs ys]
    by simp
  have two: "parse_version lim (run_text da pa) = map PInt (map decimal_value (da # map snd pa)) \<and>
      parse_version lim (run_text db pb) = map PInt (map decimal_value (db # map snd pb)) \<and>
      tuple_lt (parse_version lim (run_text da pa)) (parse_version lim (run_text db pb)) =
        Inr (spec_lex_lt (map decimal_value (da # map snd pa))
               (map decimal_value (db # map snd pb)))"
    if "runs_ok da pa" "list_all (within_digit_limit lim) (da # map snd pa)"
      "runs_ok db pb" "list_all (within_digit_limit lim) (db # map snd pb)"
    using parse_version_run_text [OF that(1,2)] parse_version_run_text [OF that(3,4)]
      t [of "map decimal_value (da # map snd pa)" "map decimal_value (db # map snd pb)"]
    by simp
  have three: "tuple_lt (parse_version lim ''16.9'') (parse_version lim ''16.11'') = Inr True"
    by (simp add: ex_16_9 ex_16_11)
  have four: "tuple_lt (parse_version lim ''16'') (parse_version lim ''16.0'') = Inr True"
    by (simp add: ex_16 ex_16_0)
  from one two three four show ?thesis by blast
qed

text \<open>
  The keys of \<^verbatim>\<open>"3.6.5"\<close> and \<^verbatim>\<open>"v3.13"\<close>: 6 is below 13. The tags \<^verbatim>\<open>"16.9"\<close> and \<^verbatim>\<open>"16-11"\<close>,
  given by their runs: 9 is below 11.
\<close>

theorem numeric_keys_compare_witness:
  "parse_version 4300 ''3.6.5'' = map PInt [3, 6, 5] \<and>
   parse_version 4300 ''v3.13'' = map PInt [3, 13] \<and>
   segment_values ''3.6.5'' = [3, 6, 5] \<and> segment_values ''v3.13'' = [3, 13] \<and>
   tuple_lt (parse_version 4300 ''3.6.5'') (parse_version 4300 ''v3.13'') = Inr True \<and>
   runs_ok ''16'' [(CHR ''.'', ''9'')] \<and>
   list_all (within_digit_limit 4300) [''16'', ''9''] \<and>
   runs_ok ''16'' [(CHR ''-'', ''11'')] \<and>
   list_all (within_digit_limit 4300) [''16'', ''11''] \<and>
   parse_version 4300 ''16.9'' = map PInt [16, 9] \<and>
   parse_version 4300 ''16-11'' = map PInt [16, 11] \<and>
   tuple_lt (parse_version 4300 ''16.9'') (parse_version 4300 ''16-11'') = Inr True"
proof -
  note n = numeric_keys_compare [of 4300 "''3.6.5''" "[3, 6, 5]" "''v3.13''" "[3, 13]"
      "''16''" "[(CHR ''.'', ''9'')]" "''16''" "[(CHR ''-'', ''11'')]"]
  have a: "parse_version 4300 ''3.6.5'' = map PInt [3, 6, 5]" by code_simp
  have b: "parse_version 4300 ''v3.13'' = map PInt [3, 13]" by code_simp
  have c: "spec_lex_lt [3, 6, 5] [3, 13]" by code_simp
  have d: "runs_ok ''16'' [(CHR ''.'', ''9'')]" by code_simp
  have e: "list_all (within_digit_limit 4300) (''16'' # map snd [(CHR ''.'', ''9'')])"
    by code_simp
  have f: "runs_ok ''16'' [(CHR ''-'', ''11'')]" by code_simp
  have g: "list_all (within_digit_limit 4300) (''16'' # map snd [(CHR ''-'', ''11'')])"
    by code_simp
  have h: "run_text ''16'' [(CHR ''.'', ''9'')] = ''16.9''" by code_simp
  have i: "run_text ''16'' [(CHR ''-'', ''11'')] = ''16-11''" by code_simp
  have j: "map decimal_value (''16'' # map snd [(CHR ''.'', ''9'')]) = [16, 9]" by code_simp
  have k: "map decimal_value (''16'' # map snd [(CHR ''-'', ''11'')]) = [16, 11]" by code_simp
  have l: "spec_lex_lt [16, 9] [16, 11]" by code_simp
  from n a b have one: "[3, 6, 5] = segment_values ''3.6.5''" "[3, 13] = segment_values ''v3.13''"
    "tuple_lt (parse_version 4300 ''3.6.5'') (parse_version 4300 ''v3.13'') =
       Inr (spec_lex_lt [3, 6, 5] [3, 13])"
    by blast+
  from n d e f g have "parse_version 4300 (run_text ''16'' [(CHR ''.'', ''9'')]) =
        map PInt (map decimal_value (''16'' # map snd [(CHR ''.'', ''9'')])) \<and>
      parse_version 4300 (run_text ''16'' [(CHR ''-'', ''11'')]) =
        map PInt (map decimal_value (''16'' # map snd [(CHR ''-'', ''11'')])) \<and>
      tuple_lt (parse_version 4300 (run_text ''16'' [(CHR ''.'', ''9'')]))
          (parse_version 4300 (run_text ''16'' [(CHR ''-'', ''11'')])) =
        Inr (spec_lex_lt (map decimal_value (''16'' # map snd [(CHR ''.'', ''9'')]))
               (map decimal_value (''16'' # map snd [(CHR ''-'', ''11'')])))"
    by blast
  then have two: "parse_version 4300 ''16.9'' = map PInt [16, 9]"
    "parse_version 4300 ''16-11'' = map PInt [16, 11]"
    "tuple_lt (parse_version 4300 ''16.9'') (parse_version 4300 ''16-11'') =
       Inr (spec_lex_lt [16, 9] [16, 11])"
    unfolding h i j k by blast+
  have c5: "tuple_lt (parse_version 4300 ''3.6.5'') (parse_version 4300 ''v3.13'') = Inr True"
    unfolding one(3) using c by simp
  have c12: "tuple_lt (parse_version 4300 ''16.9'') (parse_version 4300 ''16-11'') = Inr True"
    unfolding two(3) using l by simp
  have e': "list_all (within_digit_limit 4300) [''16'', ''9'']" using e by simp
  have g': "list_all (within_digit_limit 4300) [''16'', ''11'']" using g by simp
  show ?thesis
    by (intro conjI) (fact a b one(1,2) [symmetric] c5 d e' f g' two(1,2) c12)+
qed

end
